theory Spec2Isabelle
  imports Main "HOL-Library.Char_ord" "HOL-Library.List_Lexorder"
begin

section \<open>Text\<close>

text \<open>
  The program works on Python \<open>str\<close> values. They are modelled as HOL strings, and the
  two string methods the program calls are modelled on ASCII text: \<open>strip()\<close> removes
  the ASCII characters for which \<open>str.isspace\<close> holds (code points 9 to 13, 28 to 31
  and 32) from both ends, and \<open>upper()\<close> maps \<open>a\<close> .. \<open>z\<close> to \<open>A\<close> .. \<open>Z\<close> and leaves
  every other character alone. Text beyond ASCII, where Python's \<open>upper()\<close> can change
  the length of a string, is outside the model.
\<close>

definition isspace :: "char \<Rightarrow> bool" where
  "isspace c \<longleftrightarrow> c \<in> set [CHR 0x09, CHR 0x0A, CHR 0x0B, CHR 0x0C, CHR 0x0D,
                         CHR 0x1C, CHR 0x1D, CHR 0x1E, CHR 0x1F, CHR 0x20]"

definition strip :: "string \<Rightarrow> string" where
  "strip s = rev (dropWhile isspace (rev (dropWhile isspace s)))"

definition upper_char :: "char \<Rightarrow> char" where
  "upper_char c =
     (case map_of (zip ''abcdefghijklmnopqrstuvwxyz'' ''ABCDEFGHIJKLMNOPQRSTUVWXYZ'') c of
        None \<Rightarrow> c
      | Some u \<Rightarrow> u)"

definition upper :: "string \<Rightarrow> string" where
  "upper s = map upper_char s"

section \<open>Rows, readers and errors\<close>

text \<open>
  \<open>csv.DictReader\<close> yields one dict per data row, from column name to cell. A cell is
  a string, or \<open>None\<close> when the row is shorter than the header. Looking up a column
  that the header does not have raises \<open>KeyError\<close>; calling \<open>strip\<close> on \<open>None\<close>
  raises \<open>AttributeError\<close>. \<open>open\<close> raises \<open>OSError\<close> on a file that cannot be opened, and
  the reader may raise in the middle of the iteration (a decoding or a CSV error): a
  reader is the list of what each \<open>next\<close> gives, a row or the exception it raises.
\<close>

datatype error = KeyError string | AttributeError | OSError | ReaderError

type_synonym row = "string \<rightharpoonup> string option"

type_synonym reader = "(error + row) list"

type_synonym filesystem = "string \<rightharpoonup> reader"

text \<open>\<open>row[col].strip()\<close>\<close>

definition field :: "row \<Rightarrow> string \<Rightarrow> error + string" where
  "field row col =
     (case row col of
        None \<Rightarrow> Inl (KeyError col)
      | Some None \<Rightarrow> Inl AttributeError
      | Some (Some s) \<Rightarrow> Inr (strip s))"

text \<open>\<open>row[col].strip().upper()\<close>\<close>

definition upper_field :: "row \<Rightarrow> string \<Rightarrow> error + string" where
  "upper_field row col =
     (case field row col of
        Inl e \<Rightarrow> Inl e
      | Inr s \<Rightarrow> Inr (upper s))"

section \<open>The duplicate detector\<close>

text \<open>
  \<open>ip_to_rows\<close> is a Python dict whose iteration order (insertion order) is what the
  report prints, so it is an association list with one entry per key, in insertion
  order. \<open>setdefault_append ip n d\<close> is \<open>d.setdefault(ip, []).append(n)\<close>.
\<close>

type_synonym rows_dict = "(string \<times> nat list) list"

fun setdefault_append :: "string \<Rightarrow> nat \<Rightarrow> rows_dict \<Rightarrow> rows_dict" where
  "setdefault_append ip n [] = [(ip, [n])]"
| "setdefault_append ip n ((k, rs) # d) =
     (if k = ip then (k, rs @ [n]) # d else (k, rs) # setdefault_append ip n d)"

text \<open>The body of the loop of \<open>find_duplicate_ips_in_csv\<close>, for one row.\<close>

definition dup_step :: "nat \<Rightarrow> row \<Rightarrow> rows_dict \<Rightarrow> error + rows_dict" where
  "dup_step row_number row ip_to_rows =
     (case field row ''IP Address'' of
        Inl e \<Rightarrow> Inl e
      | Inr ip \<Rightarrow>
          if ip = [] then Inr ip_to_rows
          else Inr (setdefault_append ip row_number ip_to_rows))"

fun dup_loop :: "nat \<Rightarrow> reader \<Rightarrow> rows_dict \<Rightarrow> error + rows_dict" where
  "dup_loop row_number [] ip_to_rows = Inr ip_to_rows"
| "dup_loop row_number (Inl e # rest) ip_to_rows = Inl e"
| "dup_loop row_number (Inr row # rest) ip_to_rows =
     (case dup_step row_number row ip_to_rows of
        Inl e \<Rightarrow> Inl e
      | Inr ip_to_rows' \<Rightarrow> dup_loop (Suc row_number) rest ip_to_rows')"

definition find_duplicate_ips_in_csv :: "filesystem \<Rightarrow> string \<Rightarrow> error + rows_dict" where
  "find_duplicate_ips_in_csv fs filename =
     (case fs filename of
        None \<Rightarrow> Inl OSError
      | Some f \<Rightarrow>
          (case dup_loop 2 f [] of
             Inl e \<Rightarrow> Inl e
           | Inr ip_to_rows \<Rightarrow> Inr (filter (\<lambda>(ip, rows). length rows > 1) ip_to_rows)))"

section \<open>The loader\<close>

text \<open>
  An entry of \<open>ip_dict\<close>. The dict itself is only ever looked up by key, so it is a
  map. \<open>ip_set\<close> is a Python set: a list without repetition here, with \<open>add\<close>,
  difference and intersection on it. The order in which Python iterates a set is not
  specified; the list fixes one, and the theorems below speak of the elements only.
\<close>

record info =
  rows :: "nat list"
  id_tag :: string
  serial_number :: string

type_synonym ip_dict = "string \<rightharpoonup> info"

type_synonym ip_set = "string list"

definition set_add :: "string \<Rightarrow> ip_set \<Rightarrow> ip_set" where
  "set_add x s = (if x \<in> set s then s else s @ [x])"

definition set_difference :: "ip_set \<Rightarrow> ip_set \<Rightarrow> ip_set" where
  "set_difference a b = filter (\<lambda>x. x \<notin> set b) a"

definition set_intersection :: "ip_set \<Rightarrow> ip_set \<Rightarrow> ip_set" where
  "set_intersection a b = filter (\<lambda>x. x \<in> set b) a"

text \<open>The \<open>if ip not in ip_dict: ... else: ...\<close> of the loop body.\<close>

definition store :: "string \<Rightarrow> nat \<Rightarrow> string \<Rightarrow> string \<Rightarrow> ip_dict \<Rightarrow> ip_dict" where
  "store ip row_number id_tag_upper serial_upper ip_dict =
     (case ip_dict ip of
        None \<Rightarrow>
          ip_dict(ip \<mapsto> \<lparr>rows = [row_number], id_tag = id_tag_upper,
                           serial_number = serial_upper\<rparr>)
      | Some e \<Rightarrow>
          ip_dict(ip \<mapsto> \<lparr>rows = rows e @ [row_number], id_tag = id_tag_upper,
                           serial_number = serial_upper\<rparr>))"

definition load_step :: "nat \<Rightarrow> row \<Rightarrow> ip_dict \<times> ip_set \<Rightarrow> error + ip_dict \<times> ip_set" where
  "load_step row_number row st =
     (case field row ''IP Address'' of
        Inl e \<Rightarrow> Inl e
      | Inr ip \<Rightarrow>
          if ip = [] then Inr st
          else
            (case upper_field row ''ID Tag'' of
               Inl e \<Rightarrow> Inl e
             | Inr id_tag_upper \<Rightarrow>
                 (case upper_field row ''Serial Number'' of
                    Inl e \<Rightarrow> Inl e
                  | Inr serial_upper \<Rightarrow>
                      Inr (store ip row_number id_tag_upper serial_upper (fst st),
                           set_add ip (snd st)))))"

fun load_loop :: "nat \<Rightarrow> reader \<Rightarrow> ip_dict \<times> ip_set \<Rightarrow> error + ip_dict \<times> ip_set" where
  "load_loop row_number [] st = Inr st"
| "load_loop row_number (Inl e # rest) st = Inl e"
| "load_loop row_number (Inr row # rest) st =
     (case load_step row_number row st of
        Inl e \<Rightarrow> Inl e
      | Inr st' \<Rightarrow> load_loop (Suc row_number) rest st')"

definition load_csv_as_dict :: "filesystem \<Rightarrow> string \<Rightarrow> error + ip_dict \<times> ip_set" where
  "load_csv_as_dict fs filename =
     (case fs filename of
        None \<Rightarrow> Inl OSError
      | Some f \<Rightarrow> load_loop 2 f (Map.empty, []))"

section \<open>The reconciler\<close>

text \<open>
  The two kinds of result dict. Both have the keys \<open>ip_address\<close>, \<open>cbs_master_rows\<close>
  and \<open>poco_sheet_rows\<close> in the source; the fields of the second record carry the
  prefix \<open>mm\<close>, and the tag and serial of the first the prefix \<open>dup\<close>, to keep the field
  names of the three records apart.
\<close>

record duplicate_across =
  ip_address :: string
  cbs_master_rows :: "nat list"
  poco_sheet_rows :: "nat list"
  dup_id_tag :: string
  dup_serial_number :: string

record mismatch =
  mm_ip_address :: string
  mm_cbs_master_rows :: "nat list"
  mm_poco_sheet_rows :: "nat list"
  file1_id_tag :: string
  file1_serial :: string
  file2_id_tag :: string
  file2_serial :: string

fun compare_loop ::
  "ip_dict \<Rightarrow> ip_dict \<Rightarrow> string list \<Rightarrow> duplicate_across list \<times> mismatch list \<Rightarrow>
   error + duplicate_across list \<times> mismatch list" where
  "compare_loop cbs_dict poco_dict [] acc = Inr acc"
| "compare_loop cbs_dict poco_dict (ip # ips) (duplicates_across, mismatches) =
     (case cbs_dict ip of
        None \<Rightarrow> Inl (KeyError ip)
      | Some cbs_info \<Rightarrow>
          (case poco_dict ip of
             None \<Rightarrow> Inl (KeyError ip)
           | Some poco_info \<Rightarrow>
               if id_tag cbs_info = id_tag poco_info \<and>
                  serial_number cbs_info = serial_number poco_info
               then compare_loop cbs_dict poco_dict ips
                      (duplicates_across @
                         [\<lparr>ip_address = ip, cbs_master_rows = rows cbs_info,
                           poco_sheet_rows = rows poco_info, dup_id_tag = id_tag cbs_info,
                           dup_serial_number = serial_number cbs_info\<rparr>],
                       mismatches)
               else compare_loop cbs_dict poco_dict ips
                      (duplicates_across,
                       mismatches @
                         [\<lparr>mm_ip_address = ip, mm_cbs_master_rows = rows cbs_info,
                           mm_poco_sheet_rows = rows poco_info,
                           file1_id_tag = id_tag cbs_info,
                           file1_serial = serial_number cbs_info,
                           file2_id_tag = id_tag poco_info,
                           file2_serial = serial_number poco_info\<rparr>])))"

definition compare_csvs ::
  "filesystem \<Rightarrow> string \<Rightarrow> string \<Rightarrow>
   error + duplicate_across list \<times> mismatch list \<times> ip_set \<times> ip_set" where
  "compare_csvs fs file1 file2 =
     (case load_csv_as_dict fs file1 of
        Inl e \<Rightarrow> Inl e
      | Inr (cbs_dict, cbs_set) \<Rightarrow>
          (case load_csv_as_dict fs file2 of
             Inl e \<Rightarrow> Inl e
           | Inr (poco_dict, poco_set) \<Rightarrow>
               (let cbs_only_ips = set_difference cbs_set poco_set;
                    poco_only_ips = set_difference poco_set cbs_set;
                    common_ips = set_intersection cbs_set poco_set
                in case compare_loop cbs_dict poco_dict common_ips ([], []) of
                     Inl e \<Rightarrow> Inl e
                   | Inr (duplicates_across, mismatches) \<Rightarrow>
                       Inr (duplicates_across, mismatches, cbs_only_ips, poco_only_ips))))"

section \<open>The report\<close>

text \<open>
  Standard output is the list of the strings handed to \<open>print\<close>, in order. A statement
  of the main program takes the output so far and gives the output after it together
  with its value, or with the exception that left it; \<open>bind\<close> is \<open>;\<close>: an exception
  skips everything after it.
\<close>

type_synonym 'a io = "string list \<Rightarrow> (error + 'a) \<times> string list"

definition print :: "string \<Rightarrow> unit io" where
  "print line out = (Inr (), out @ [line])"

definition call :: "error + 'a \<Rightarrow> 'a io" where
  "call r out = (r, out)"

definition bind :: "'a io \<Rightarrow> ('a \<Rightarrow> 'b io) \<Rightarrow> 'b io" where
  "bind m f out =
     (case m out of
        (Inl e, out') \<Rightarrow> (Inl e, out')
      | (Inr x, out') \<Rightarrow> f x out')"

fun for_each :: "'a list \<Rightarrow> ('a \<Rightarrow> unit io) \<Rightarrow> unit io" where
  "for_each [] body = call (Inr ())"
| "for_each (x # xs) body = bind (body x) (\<lambda>_. for_each xs body)"

text \<open>\<open>str(n)\<close>, \<open>sep.join(xs)\<close> and the format specification \<open><w\<close>.\<close>

fun str :: "nat \<Rightarrow> string" where
  "str n =
     (if n < 10 then [''0123456789'' ! n]
      else str (n div 10) @ [''0123456789'' ! (n mod 10)])"

fun join :: "string \<Rightarrow> string list \<Rightarrow> string" where
  "join sep [] = []"
| "join sep [x] = x"
| "join sep (x # y # xs) = x @ sep @ join sep (y # xs)"

definition ljust :: "nat \<Rightarrow> string \<Rightarrow> string" where
  "ljust w s = s @ replicate (w - length s) CHR '' ''"

definition file1 :: string where
  "file1 = ''POCANTICO HILLS CSD Master Printer List - Copy(Meter Comparison).csv''"

definition file2 :: string where
  "file2 = ''Pocantico x CBS Printers Info - Copy(Sheet1).csv''"

definition print_duplicates :: "string \<Rightarrow> rows_dict \<Rightarrow> unit io" where
  "print_duplicates none_found duplicates_dict =
     (if duplicates_dict \<noteq> [] then
        for_each duplicates_dict
          (\<lambda>(ip, rows). print (''IP: '' @ ljust 15 ip @ ''  Rows: '' @ join '', '' (map str rows)))
      else print none_found)"

definition print_only :: "string \<Rightarrow> ip_set \<Rightarrow> unit io" where
  "print_only none_found only_ips =
     (if only_ips \<noteq> [] then for_each (sort only_ips) (\<lambda>ip. print (''IP: '' @ ip))
      else print none_found)"

definition print_duplicates_across :: "duplicate_across list \<Rightarrow> unit io" where
  "print_duplicates_across duplicates_across =
     (if duplicates_across \<noteq> [] then
        for_each duplicates_across
          (\<lambda>d. print (''IP: '' @ ljust 15 (ip_address d) @
                       ''  CBS Rows: '' @ ljust 6 (join '', '' (map str (cbs_master_rows d))) @
                       ''  Poco Rows: '' @ ljust 6 (join '', '' (map str (poco_sheet_rows d))) @
                       ''  ID Tag: '' @ ljust 10 (dup_id_tag d) @
                       ''  Serial: '' @ dup_serial_number d))
      else print ''No exact matches across files.'')"

definition print_mismatches :: "mismatch list \<Rightarrow> unit io" where
  "print_mismatches mismatches =
     (if mismatches \<noteq> [] then
        for_each mismatches
          (\<lambda>m. print (''IP: '' @ ljust 15 (mm_ip_address m) @
                       ''  CBS Rows: '' @ ljust 6 (join '', '' (map str (mm_cbs_master_rows m))) @
                       ''  ID Tag: '' @ ljust 10 (file1_id_tag m) @
                       ''  Serial: '' @ ljust 12 (file1_serial m) @
                       ''  Poco Rows: '' @ ljust 6 (join '', '' (map str (mm_poco_sheet_rows m))) @
                       ''  ID Tag: '' @ ljust 10 (file2_id_tag m) @
                       ''  Serial: '' @ file2_serial m))
      else print ''No mismatches across files.'')"

text \<open>
  The six sections, in the order of the source. A header that the source prints with a
  leading \<open>\n\<close> starts with the character 10 here.
\<close>

definition report ::
  "rows_dict \<Rightarrow> rows_dict \<Rightarrow> duplicate_across list \<Rightarrow> mismatch list \<Rightarrow> ip_set \<Rightarrow> ip_set \<Rightarrow>
   unit io" where
  "report cbs_duplicates_dict poco_duplicates_dict duplicates_across mismatches
     cbs_only_ips poco_only_ips =
     bind (print ''=== DUPLICATE IPs *WITHIN* CBS MASTER ==='') (\<lambda>_.
     bind (print_duplicates ''No duplicate IPs found within CBS Master.''
             cbs_duplicates_dict) (\<lambda>_.
     bind (print (CHR 0x0A # ''=== DUPLICATE IPs *WITHIN* POCO SHEET ==='')) (\<lambda>_.
     bind (print_duplicates ''No duplicate IPs found within Poco sheet.''
             poco_duplicates_dict) (\<lambda>_.
     bind (print (CHR 0x0A # ''=== IPs IN CBS MASTER BUT *NOT* IN POCO SHEET ==='')) (\<lambda>_.
     bind (print_only ''No IPs are exclusive to CBS Master.'' cbs_only_ips) (\<lambda>_.
     bind (print (CHR 0x0A # ''=== IPs IN POCO SHEET BUT *NOT* IN CBS MASTER ==='')) (\<lambda>_.
     bind (print_only ''No IPs are exclusive to Poco sheet.'' poco_only_ips) (\<lambda>_.
     bind (print (CHR 0x0A #
             ''=== CROSS-FILE EXACT MATCHES (SAME IP, SAME ID, SAME SERIAL) ==='')) (\<lambda>_.
     bind (print_duplicates_across duplicates_across) (\<lambda>_.
     bind (print (CHR 0x0A #
             ''=== CROSS-FILE POTENTIAL CONFLICTS (SAME IP, DIFFERENT ID OR SERIAL) ==='')) (\<lambda>_.
     print_mismatches mismatches)))))))))))"

definition main :: "filesystem \<Rightarrow> (error + unit) \<times> string list" where
  "main fs =
     bind (call (find_duplicate_ips_in_csv fs file1)) (\<lambda>cbs_duplicates_dict.
     bind (call (find_duplicate_ips_in_csv fs file2)) (\<lambda>poco_duplicates_dict.
     bind (call (compare_csvs fs file1 file2))
       (\<lambda>(duplicates_across, mismatches, cbs_only_ips, poco_only_ips).
     report cbs_duplicates_dict poco_duplicates_dict duplicates_across mismatches
       cbs_only_ips poco_only_ips))) []"

section \<open>Notions used to state the properties\<close>

text \<open>
  A row carries the key \<open>k\<close> when its trimmed \<open>IP Address\<close> cell is \<open>k\<close>. The keys of a
  source are the non-blank keys its rows carry. The position of the row at index \<open>i\<close>
  of the data rows is \<open>i + 2\<close>: the header is line 1.
\<close>

definition has_key :: "string \<Rightarrow> row \<Rightarrow> bool" where
  "has_key k row \<longleftrightarrow> field row ''IP Address'' = Inr k"

definition keys :: "row list \<Rightarrow> string set" where
  "keys src = set [k. Inr k \<leftarrow> map (\<lambda>r. field r ''IP Address'') src, k \<noteq> []]"

text \<open>
  The rows on which the loop bodies raise nothing: the duplicate detector needs the key
  cell, the loader the tag and the serial too, unless the key is blank.
\<close>

definition keyed :: "row \<Rightarrow> bool" where
  "keyed r \<longleftrightarrow> \<not> isl (field r ''IP Address'')"

definition loadable :: "row \<Rightarrow> bool" where
  "loadable r \<longleftrightarrow>
     (case field r ''IP Address'' of
        Inl e \<Rightarrow> False
      | Inr ip \<Rightarrow>
          ip = [] \<or> (\<not> isl (field r ''ID Tag'') \<and> \<not> isl (field r ''Serial Number'')))"

definition positions_from :: "nat \<Rightarrow> string \<Rightarrow> row list \<Rightarrow> nat list" where
  "positions_from n k src = [i + n. i \<leftarrow> [0..<length src], has_key k (src ! i)]"

definition positions :: "string \<Rightarrow> row list \<Rightarrow> nat list" where
  "positions k src = positions_from 2 k src"

text \<open>The last row of a source that carries the key \<open>k\<close>.\<close>

definition last_row :: "string \<Rightarrow> row list \<Rightarrow> row" where
  "last_row k src = last (filter (has_key k) src)"

text \<open>What a dict of lists, or of entries, holds for a key, the empty list for none.\<close>

definition getdefault :: "('k \<rightharpoonup> 'v list) \<Rightarrow> 'k \<Rightarrow> 'v list" where
  "getdefault m k = (case m k of None \<Rightarrow> [] | Some l \<Rightarrow> l)"

definition old_rows :: "ip_dict \<Rightarrow> string \<Rightarrow> nat list" where
  "old_rows d k = (case d k of None \<Rightarrow> [] | Some e \<Rightarrow> rows e)"

text \<open>The number of positions in a dict of position lists, and the rows with a key.\<close>

definition count_positions :: "rows_dict \<Rightarrow> nat" where
  "count_positions d = sum_list (map (\<lambda>(ip, rows). length rows) d)"

definition count_nonblank_rows :: "row list \<Rightarrow> nat" where
  "count_nonblank_rows src = length (filter (\<lambda>r. \<not> has_key [] r) src)"

text \<open>
  What the loop of \<open>compare_csvs\<close> appends for a key that both dicts hold: the test it
  makes, and the record of each branch.
\<close>

definition agree :: "info \<Rightarrow> info \<Rightarrow> bool" where
  "agree a b \<longleftrightarrow> id_tag a = id_tag b \<and> serial_number a = serial_number b"

definition match_record :: "string \<Rightarrow> info \<Rightarrow> info \<Rightarrow> duplicate_across" where
  "match_record k a b =
     \<lparr>ip_address = k, cbs_master_rows = rows a, poco_sheet_rows = rows b,
      dup_id_tag = id_tag a, dup_serial_number = serial_number a\<rparr>"

definition mismatch_record :: "string \<Rightarrow> info \<Rightarrow> info \<Rightarrow> mismatch" where
  "mismatch_record k a b =
     \<lparr>mm_ip_address = k, mm_cbs_master_rows = rows a, mm_poco_sheet_rows = rows b,
      file1_id_tag = id_tag a, file1_serial = serial_number a,
      file2_id_tag = id_tag b, file2_serial = serial_number b\<rparr>"

text \<open>
  The first exception that the loads of the main program raise, in the order in which
  it makes them: the two runs of the duplicate detector, then the two loads of
  \<open>compare_csvs\<close>. A statement that only prints adds lines to the output and raises
  nothing.
\<close>

definition first_error :: "filesystem \<Rightarrow> error option" where
  "first_error fs =
     (case find_duplicate_ips_in_csv fs file1 of
        Inl e \<Rightarrow> Some e
      | Inr cbs_duplicates_dict \<Rightarrow>
          (case find_duplicate_ips_in_csv fs file2 of
             Inl e \<Rightarrow> Some e
           | Inr poco_duplicates_dict \<Rightarrow>
               (case load_csv_as_dict fs file1 of
                  Inl e \<Rightarrow> Some e
                | Inr cbs \<Rightarrow>
                    (case load_csv_as_dict fs file2 of
                       Inl e \<Rightarrow> Some e
                     | Inr poco \<Rightarrow> None))))"

definition prints_only :: "unit io \<Rightarrow> bool" where
  "prints_only m \<longleftrightarrow> (\<forall>out. \<exists>lines. m out = (Inr (), out @ lines))"

section \<open>Sample sources\<close>

text \<open>
  A row with the three columns, and two small sources: the first has a repeated key, a
  row with a blank key, and keys that the second has with another case of the tag, with
  another case of the key, and with blank tag and serial.
\<close>

definition record_row :: "string \<Rightarrow> string \<Rightarrow> string \<Rightarrow> row" where
  "record_row ip tag serial =
     [''IP Address'' \<mapsto> Some ip, ''ID Tag'' \<mapsto> Some tag, ''Serial Number'' \<mapsto> Some serial]"

definition source_A :: "row list" where
  "source_A =
     [record_row ''10.0.0.1'' ''x1'' ''s1'',
      record_row '' 10.0.0.1'' ''x2'' ''s2'',
      record_row ''  '' ''t'' ''s'',
      record_row ''10.0.0.5'' ''ABC'' ''111'',
      record_row ''pr-7'' ''p'' ''q'',
      record_row ''10.0.0.8'' [] ''  '']"

definition source_B :: "row list" where
  "source_B =
     [record_row ''10.0.0.5'' ''abc'' ''111 '',
      record_row ''PR-7'' ''p'' ''q'',
      record_row ''10.0.0.8'' '' '' [],
      record_row ''10.0.0.1'' ''X2'' ''s9'']"

definition sample_fs :: filesystem where
  "sample_fs = [''a.csv'' \<mapsto> map Inr source_A, ''b.csv'' \<mapsto> map Inr source_B]"





section \<open>The loops\<close>

lemma positions_from_Nil [simp]: "positions_from n k [] = []"
  by (simp add: positions_from_def)

lemma positions_from_Cons:
  "positions_from n k (r # src) =
     (if has_key k r then [n] else []) @ positions_from (Suc n) k src"
proof -
  have "[0..<length (r # src)] = 0 # map Suc [0..<length src]"
    by (simp add: upt_conv_Cons map_Suc_upt del: upt_Suc)
  then show ?thesis
    by (simp add: positions_from_def filter_map comp_def concat_map_singleton
        del: upt_Suc cong: if_cong)
qed

lemma map_of_setdefault_append:
  "map_of (setdefault_append ip n d) =
     (map_of d)(ip \<mapsto> getdefault (map_of d) ip @ [n])"
  by (induction d) (auto simp: getdefault_def fun_eq_iff)

lemma keys_setdefault_append:
  "fst ` set (setdefault_append ip n d) = insert ip (fst ` set d)"
  by (induction ip n d rule: setdefault_append.induct) auto

lemma distinct_setdefault_append:
  "distinct (map fst d) \<Longrightarrow> distinct (map fst (setdefault_append ip n d))"
proof (induction d)
  case Nil
  then show ?case by simp
next
  case (Cons p d)
  obtain k rs where p: "p = (k, rs)" by (cases p)
  have "k \<notin> insert ip (fst ` set d)" if "k \<noteq> ip"
    using Cons.prems that by (auto simp: p)
  with Cons show ?case
    using keys_setdefault_append [of ip n d] by (auto simp: p)
qed

lemma has_key_blank: "field r ''IP Address'' = Inr [] \<Longrightarrow> has_key k r \<longleftrightarrow> k = []"
  by (auto simp: has_key_def)

lemma dup_loop_map_of:
  "dup_loop n (map Inr src) acc = Inr res \<Longrightarrow>
   map_of res k =
     (if k = [] \<or> positions_from n k src = [] then map_of acc k
      else Some (getdefault (map_of acc) k @ positions_from n k src))"
proof (induction src arbitrary: n acc)
  case Nil
  then show ?case by simp
next
  case (Cons r src)
  from Cons.prems obtain acc' where
    step: "dup_step n r acc = Inr acc'" and
    rest: "dup_loop (Suc n) (map Inr src) acc' = Inr res"
    by (auto split: sum.splits)
  from step obtain ip where ip: "field r ''IP Address'' = Inr ip"
    by (auto simp: dup_step_def split: sum.splits)
  note IH = Cons.IH [OF rest]
  show ?case
  proof (cases "ip = []")
    case True
    with step ip have "acc' = acc"
      by (simp add: dup_step_def)
    with IH ip True show ?thesis
      by (auto simp: positions_from_Cons has_key_def)
  next
    case False
    with step ip have acc': "acc' = setdefault_append ip n acc"
      by (simp add: dup_step_def)
    show ?thesis
      using IH ip False
      by (auto simp: acc' positions_from_Cons has_key_def map_of_setdefault_append
          getdefault_def)
  qed
qed

lemma dup_loop_distinct:
  "dup_loop n (map Inr src) acc = Inr res \<Longrightarrow> distinct (map fst acc) \<Longrightarrow>
   distinct (map fst res)"
proof (induction src arbitrary: n acc)
  case Nil
  then show ?case by simp
next
  case (Cons r src)
  from Cons.prems(1) obtain acc' where
    step: "dup_step n r acc = Inr acc'" and
    rest: "dup_loop (Suc n) (map Inr src) acc' = Inr res"
    by (auto split: sum.splits)
  from step Cons.prems(2) have "distinct (map fst acc')"
    by (auto simp: dup_step_def distinct_setdefault_append split: sum.splits if_splits)
  with Cons.IH [OF rest] show ?case .
qed

lemma dup_loop_total:
  "\<forall>r \<in> set src. keyed r \<Longrightarrow> \<exists>res. dup_loop n (map Inr src) acc = Inr res"
proof (induction src arbitrary: n acc)
  case Nil
  then show ?case by simp
next
  case (Cons r src)
  from Cons.prems obtain k where "field r ''IP Address'' = Inr k"
    by (cases "field r ''IP Address''") (auto simp: keyed_def)
  then have "\<exists>acc'. dup_step n r acc = Inr acc'"
    by (simp add: dup_step_def)
  then obtain acc' where "dup_step n r acc = Inr acc'" ..
  moreover from Cons have "\<exists>res. dup_loop (Suc n) (map Inr src) acc' = Inr res"
    by simp
  ultimately show ?case by auto
qed

lemma map_of_filter_value:
  "distinct (map fst d) \<Longrightarrow>
   map_of (filter (\<lambda>(k, v). P v) d) k =
     (case map_of d k of None \<Rightarrow> None | Some v \<Rightarrow> if P v then Some v else None)"
proof (induction d)
  case Nil
  then show ?case by simp
next
  case (Cons p d)
  obtain a b where p: "p = (a, b)" by (cases p)
  from Cons.prems have "map_of d a = None"
    by (simp add: p map_of_eq_None_iff)
  with Cons show ?case
    by (auto simp: p split: option.splits)
qed

lemma load_step_cases:
  assumes "load_step n r (d, s) = Inr (d1, s1)"
  obtains (blank) "field r ''IP Address'' = Inr []" "d1 = d" "s1 = s"
  | (keyed) ip t sn where "field r ''IP Address'' = Inr ip" "ip \<noteq> []"
      "upper_field r ''ID Tag'' = Inr t" "upper_field r ''Serial Number'' = Inr sn"
      "d1 = store ip n t sn d" "s1 = set_add ip s"
  using assms by (auto simp: load_step_def split: sum.splits if_splits)

lemma load_loop_Cons:
  assumes "load_loop n (map Inr (r # src)) (d, s) = Inr (d', s')"
  obtains d1 s1 where "load_step n r (d, s) = Inr (d1, s1)"
    "load_loop (Suc n) (map Inr src) (d1, s1) = Inr (d', s')"
  using assms by (auto split: sum.splits)

lemma store_other: "k \<noteq> ip \<Longrightarrow> store ip n t sn d k = d k"
  by (simp add: store_def split: option.splits)

lemma store_same:
  "store ip n t sn d ip =
     Some \<lparr>rows = old_rows d ip @ [n], id_tag = t, serial_number = sn\<rparr>"
  by (simp add: store_def old_rows_def split: option.splits)

lemma old_rows_store:
  "old_rows (store ip n t sn d) k = old_rows d k @ (if k = ip then [n] else [])"
  by (simp add: old_rows_def store_same store_other)

lemma load_loop_unchanged:
  "load_loop n (map Inr src) (d, s) = Inr (d', s') \<Longrightarrow>
   k = [] \<or> filter (has_key k) src = [] \<Longrightarrow> d' k = d k"
proof (induction src arbitrary: n d s)
  case Nil
  then show ?case by simp
next
  case (Cons r src)
  from Cons.prems(1) obtain d1 s1 where
    step: "load_step n r (d, s) = Inr (d1, s1)" and
    rest: "load_loop (Suc n) (map Inr src) (d1, s1) = Inr (d', s')"
    by (rule load_loop_Cons)
  from Cons.prems(2) have "k = [] \<or> filter (has_key k) src = []"
    by (auto split: if_splits)
  with Cons.IH [OF rest] have "d' k = d1 k" .
  moreover from step Cons.prems(2) have "d1 k = d k"
    by (cases rule: load_step_cases) (auto simp: store_other has_key_def split: if_splits)
  ultimately show ?case by simp
qed

lemma load_loop_rows:
  "load_loop n (map Inr src) (d, s) = Inr (d', s') \<Longrightarrow> k \<noteq> [] \<Longrightarrow>
   old_rows d' k = old_rows d k @ positions_from n k src"
proof (induction src arbitrary: n d s)
  case Nil
  then show ?case by simp
next
  case (Cons r src)
  from Cons.prems(1) obtain d1 s1 where
    step: "load_step n r (d, s) = Inr (d1, s1)" and
    rest: "load_loop (Suc n) (map Inr src) (d1, s1) = Inr (d', s')"
    by (rule load_loop_Cons)
  from step Cons.prems(2)
  have "old_rows d1 k = old_rows d k @ (if has_key k r then [n] else [])"
    by (cases rule: load_step_cases) (auto simp: old_rows_store has_key_def)
  with Cons.IH [OF rest Cons.prems(2)] show ?case
    by (simp add: positions_from_Cons)
qed

lemma load_loop_last:
  "load_loop n (map Inr src) (d, s) = Inr (d', s') \<Longrightarrow> k \<noteq> [] \<Longrightarrow>
   filter (has_key k) src \<noteq> [] \<Longrightarrow>
   \<exists>e. d' k = Some e \<and>
       upper_field (last (filter (has_key k) src)) ''ID Tag'' = Inr (id_tag e) \<and>
       upper_field (last (filter (has_key k) src)) ''Serial Number'' = Inr (serial_number e)"
proof (induction src arbitrary: n d s)
  case Nil
  then show ?case by simp
next
  case (Cons r src)
  from Cons.prems(1) obtain d1 s1 where
    step: "load_step n r (d, s) = Inr (d1, s1)" and
    rest: "load_loop (Suc n) (map Inr src) (d1, s1) = Inr (d', s')"
    by (rule load_loop_Cons)
  show ?case
  proof (cases "filter (has_key k) src = []")
    case False
    with Cons.IH [OF rest Cons.prems(2)] show ?thesis
      by simp
  next
    case True
    with Cons.prems(3) have r: "has_key k r"
      by (auto split: if_splits)
    from load_loop_unchanged [OF rest] True have "d' k = d1 k"
      by simp
    moreover from step r Cons.prems(2)
    have "\<exists>e. d1 k = Some e \<and> upper_field r ''ID Tag'' = Inr (id_tag e) \<and>
            upper_field r ''Serial Number'' = Inr (serial_number e)"
      by (cases rule: load_step_cases) (auto simp: has_key_def store_same)
    ultimately show ?thesis
      using True r by simp
  qed
qed

lemma load_loop_set:
  "load_loop n (map Inr src) (d, s) = Inr (d', s') \<Longrightarrow>
   set s' = set s \<union> {k. k \<noteq> [] \<and> (\<exists>r \<in> set src. has_key k r)}"
proof (induction src arbitrary: n d s)
  case Nil
  then show ?case by simp
next
  case (Cons r src)
  from Cons.prems(1) obtain d1 s1 where
    step: "load_step n r (d, s) = Inr (d1, s1)" and
    rest: "load_loop (Suc n) (map Inr src) (d1, s1) = Inr (d', s')"
    by (rule load_loop_Cons)
  from step have "set s1 = set s \<union> {k. k \<noteq> [] \<and> has_key k r}"
    by (cases rule: load_step_cases) (auto simp: has_key_def set_add_def)
  with Cons.IH [OF rest] show ?case
    by auto
qed

lemma load_loop_distinct:
  "load_loop n (map Inr src) (d, s) = Inr (d', s') \<Longrightarrow> distinct s \<Longrightarrow> distinct s'"
proof (induction src arbitrary: n d s)
  case Nil
  then show ?case by simp
next
  case (Cons r src)
  from Cons.prems(1) obtain d1 s1 where
    step: "load_step n r (d, s) = Inr (d1, s1)" and
    rest: "load_loop (Suc n) (map Inr src) (d1, s1) = Inr (d', s')"
    by (rule load_loop_Cons)
  from step Cons.prems(2) have "distinct s1"
    by (cases rule: load_step_cases) (auto simp: set_add_def)
  with Cons.IH [OF rest] show ?case .
qed

lemma load_loop_dom:
  "load_loop n (map Inr src) (d, s) = Inr (d', s') \<Longrightarrow>
   dom d' = dom d \<union> {k. k \<noteq> [] \<and> (\<exists>r \<in> set src. has_key k r)}"
proof (induction src arbitrary: n d s)
  case Nil
  then show ?case by simp
next
  case (Cons r src)
  from Cons.prems(1) obtain d1 s1 where
    step: "load_step n r (d, s) = Inr (d1, s1)" and
    rest: "load_loop (Suc n) (map Inr src) (d1, s1) = Inr (d', s')"
    by (rule load_loop_Cons)
  from step have "dom d1 = dom d \<union> {k. k \<noteq> [] \<and> has_key k r}"
    by (cases rule: load_step_cases)
      (auto simp: has_key_def store_def split: option.splits if_splits)
  with Cons.IH [OF rest] show ?case
    by auto
qed

section \<open>The loader's result\<close>

lemma keys_iff: "k \<in> keys src \<longleftrightarrow> k \<noteq> [] \<and> (\<exists>r \<in> set src. has_key k r)"
  by (force simp: keys_def has_key_def split: sum.splits)

lemma keys_filter: "k \<in> keys src \<longleftrightarrow> k \<noteq> [] \<and> filter (has_key k) src \<noteq> []"
  by (auto simp: keys_iff filter_empty_conv)

lemma positions_from_map:
  "positions_from n k src =
     map (\<lambda>i. i + n) (filter (\<lambda>i. has_key k (src ! i)) [0..<length src])"
proof -
  have "concat (map (\<lambda>i. if P i then [f i] else []) is) = map f (filter P is)"
    for P :: "nat \<Rightarrow> bool" and f :: "nat \<Rightarrow> nat" and "is"
    by (induction "is") simp_all
  then show ?thesis
    by (simp add: positions_from_def)
qed

lemma set_positions_from:
  "set (positions_from n k src) = {i + n |i. i < length src \<and> has_key k (src ! i)}"
  by (auto simp: positions_from_map)

lemma nth_filter_upt:
  "map ((!) xs) (filter (\<lambda>i. P (xs ! i)) [0..<length xs]) = filter P xs"
proof -
  have "filter P xs = filter P (map ((!) xs) [0..<length xs])"
    by (simp add: map_nth)
  also have "\<dots> = map ((!) xs) (filter (\<lambda>i. P (xs ! i)) [0..<length xs])"
    by (simp add: filter_map comp_def)
  finally show ?thesis by simp
qed

lemma length_positions_from:
  "length (positions_from n k src) = length (filter (has_key k) src)"
  unfolding positions_from_map nth_filter_upt [of src "has_key k", symmetric] by simp

lemma positions_from_empty:
  "positions_from n k src = [] \<longleftrightarrow> filter (has_key k) src = []"
  using length_positions_from [of n k src] by (metis length_0_conv)

lemma sorted_positions_from: "sorted_wrt (<) (positions_from n k src)"
proof -
  have "sorted_wrt (<) (filter (\<lambda>i. has_key k (src ! i)) [0..<length src])"
    by (rule sorted_wrt_filter) simp
  then show ?thesis
    by (simp add: positions_from_map sorted_wrt_map)
qed

lemma last_positions_from:
  assumes "filter (has_key k) src \<noteq> []"
  shows "n \<le> last (positions_from n k src) \<and>
         last (positions_from n k src) - n < length src \<and>
         src ! (last (positions_from n k src) - n) = last (filter (has_key k) src)"
proof -
  let ?is = "filter (\<lambda>i. has_key k (src ! i)) [0..<length src]"
  from assms have ne: "?is \<noteq> []"
    using nth_filter_upt [of src "has_key k"] by (metis list.map_disc_iff)
  then have l: "last (positions_from n k src) = last ?is + n"
    by (simp add: positions_from_map last_map)
  from ne have "last ?is \<in> set ?is"
    by (rule last_in_set)
  then have b: "last ?is < length src"
    by simp
  have "last (filter (has_key k) src) = last (map ((!) src) ?is)"
    by (simp only: nth_filter_upt)
  also have "\<dots> = src ! last ?is"
    using ne by (simp add: last_map)
  finally show ?thesis
    using l b by simp
qed

lemma load_loop_total:
  "\<forall>r \<in> set src. loadable r \<Longrightarrow> \<exists>st'. load_loop n (map Inr src) st = Inr st'"
proof (induction src arbitrary: n st)
  case Nil
  then show ?case by simp
next
  case (Cons r src)
  from Cons.prems have "loadable r"
    by simp
  then have "\<exists>st1. load_step n r st = Inr st1"
    by (auto simp: loadable_def load_step_def upper_field_def split: sum.splits)
  then obtain st1 where "load_step n r st = Inr st1" ..
  moreover from Cons have "\<exists>st'. load_loop (Suc n) (map Inr src) st1 = Inr st'"
    by simp
  ultimately show ?case by auto
qed

lemma load_csv_as_dict_total:
  assumes "fs filename = Some (map Inr src)" and "\<forall>r \<in> set src. loadable r"
  shows "\<exists>d s. load_csv_as_dict fs filename = Inr (d, s)"
  using load_loop_total [OF assms(2), of 2 "(Map.empty, [])"]
  by (auto simp: load_csv_as_dict_def assms(1))

lemma load_csv_as_dict_loop:
  assumes "fs filename = Some (map Inr src)"
    and "load_csv_as_dict fs filename = Inr (d, s)"
  shows "load_loop 2 (map Inr src) (Map.empty, []) = Inr (d, s)"
  using assms unfolding load_csv_as_dict_def by simp

lemma keys_collect: "{k. k \<noteq> [] \<and> (\<exists>r \<in> set src. has_key k r)} = keys src"
  using keys_iff by blast

lemma load_csv_as_dict_keys:
  assumes "fs filename = Some (map Inr src)"
    and "load_csv_as_dict fs filename = Inr (d, s)"
  shows "dom d = keys src" and "set s = keys src" and "distinct s"
proof -
  note l = load_csv_as_dict_loop [OF assms]
  show "dom d = keys src"
    using load_loop_dom [OF l] by (simp add: keys_collect)
  show "set s = keys src"
    using load_loop_set [OF l] by (simp add: keys_collect)
  show "distinct s"
    using load_loop_distinct [OF l] by simp
qed

lemma load_csv_as_dict_entry:
  assumes "fs filename = Some (map Inr src)"
    and "load_csv_as_dict fs filename = Inr (d, s)"
    and "k \<in> keys src"
  shows "\<exists>e. d k = Some e \<and> rows e = positions k src \<and>
             upper_field (last_row k src) ''ID Tag'' = Inr (id_tag e) \<and>
             upper_field (last_row k src) ''Serial Number'' = Inr (serial_number e)"
proof -
  note l = load_csv_as_dict_loop [OF assms(1,2)]
  from assms(3) have k: "k \<noteq> []" "filter (has_key k) src \<noteq> []"
    by (simp_all add: keys_filter)
  from load_loop_last [OF l k] obtain e where
    e: "d k = Some e"
      "upper_field (last_row k src) ''ID Tag'' = Inr (id_tag e)"
      "upper_field (last_row k src) ''Serial Number'' = Inr (serial_number e)"
    unfolding last_row_def by blast
  from load_loop_rows [OF l k(1)] e(1) have "rows e = positions k src"
    by (simp add: old_rows_def positions_def)
  with e show ?thesis by simp
qed

section \<open>The reconciler's result\<close>

lemma compare_loop_result:
  "set ks \<subseteq> dom a \<inter> dom b \<Longrightarrow>
   compare_loop a b ks (da0, mm0) =
     Inr (da0 @ map (\<lambda>k. match_record k (the (a k)) (the (b k)))
                  (filter (\<lambda>k. agree (the (a k)) (the (b k))) ks),
          mm0 @ map (\<lambda>k. mismatch_record k (the (a k)) (the (b k)))
                  (filter (\<lambda>k. \<not> agree (the (a k)) (the (b k))) ks))"
proof (induction ks arbitrary: da0 mm0)
  case Nil
  then show ?case by simp
next
  case (Cons k ks)
  from Cons.prems obtain x y where xy: "a k = Some x" "b k = Some y"
    by auto
  from Cons.prems have "set ks \<subseteq> dom a \<inter> dom b"
    by simp
  note IH = Cons.IH [OF this]
  show ?case
    by (simp add: xy IH agree_def match_record_def mismatch_record_def)
qed

lemma compare_csvs_result:
  assumes "load_csv_as_dict fs f1 = Inr (a, s1)"
    and "load_csv_as_dict fs f2 = Inr (b, s2)"
    and "set s1 = dom a" and "set s2 = dom b"
  shows "compare_csvs fs f1 f2 =
     Inr (map (\<lambda>k. match_record k (the (a k)) (the (b k)))
            (filter (\<lambda>k. agree (the (a k)) (the (b k))) (set_intersection s1 s2)),
          map (\<lambda>k. mismatch_record k (the (a k)) (the (b k)))
            (filter (\<lambda>k. \<not> agree (the (a k)) (the (b k))) (set_intersection s1 s2)),
          set_difference s1 s2, set_difference s2 s1)"
proof -
  have "set (set_intersection s1 s2) \<subseteq> dom a \<inter> dom b"
    using assms(3,4) by (auto simp: set_intersection_def)
  from compare_loop_result [OF this, of "[]" "[]"] show ?thesis
    by (simp add: compare_csvs_def assms(1,2))
qed

lemma filter_key_distinct:
  "distinct ks \<Longrightarrow> filter (\<lambda>x. x = k \<and> P x) ks = (if k \<in> set ks \<and> P k then [k] else [])"
  by (induction ks) auto

lemma match_record_sel [simp]:
  "ip_address (match_record k x y) = k"
  "cbs_master_rows (match_record k x y) = rows x"
  "poco_sheet_rows (match_record k x y) = rows y"
  "dup_id_tag (match_record k x y) = id_tag x"
  "dup_serial_number (match_record k x y) = serial_number x"
  by (simp_all add: match_record_def)

lemma mismatch_record_sel [simp]:
  "mm_ip_address (mismatch_record k x y) = k"
  "mm_cbs_master_rows (mismatch_record k x y) = rows x"
  "mm_poco_sheet_rows (mismatch_record k x y) = rows y"
  "file1_id_tag (mismatch_record k x y) = id_tag x"
  "file1_serial (mismatch_record k x y) = serial_number x"
  "file2_id_tag (mismatch_record k x y) = id_tag y"
  "file2_serial (mismatch_record k x y) = serial_number y"
  by (simp_all add: mismatch_record_def)

text \<open>
  What the reconciler returns on two sources that load: the two loads, and the four
  collections in terms of the two dicts and the common keys.
\<close>

lemma reconcile:
  assumes A: "fs f1 = Some (map Inr srcA)" and B: "fs f2 = Some (map Inr srcB)"
    and lA: "\<forall>r \<in> set srcA. loadable r" and lB: "\<forall>r \<in> set srcB. loadable r"
  obtains a s1 b s2 common where
    "load_csv_as_dict fs f1 = Inr (a, s1)" "load_csv_as_dict fs f2 = Inr (b, s2)"
    "dom a = keys srcA" "dom b = keys srcB"
    "set s1 = keys srcA" "set s2 = keys srcB"
    "distinct common" "set common = keys srcA \<inter> keys srcB"
    "compare_csvs fs f1 f2 =
       Inr (map (\<lambda>k. match_record k (the (a k)) (the (b k)))
              (filter (\<lambda>k. agree (the (a k)) (the (b k))) common),
            map (\<lambda>k. mismatch_record k (the (a k)) (the (b k)))
              (filter (\<lambda>k. \<not> agree (the (a k)) (the (b k))) common),
            set_difference s1 s2, set_difference s2 s1)"
proof -
  from load_csv_as_dict_total [of fs f1 srcA, OF A lA] obtain a s1 where
    1: "load_csv_as_dict fs f1 = Inr (a, s1)" by blast
  from load_csv_as_dict_total [of fs f2 srcB, OF B lB] obtain b s2 where
    2: "load_csv_as_dict fs f2 = Inr (b, s2)" by blast
  note kA = load_csv_as_dict_keys [of fs f1 srcA, OF A 1]
    and kB = load_csv_as_dict_keys [of fs f2 srcB, OF B 2]
  have "distinct (set_intersection s1 s2)"
    using kA(3) by (simp add: set_intersection_def)
  moreover have "set (set_intersection s1 s2) = keys srcA \<inter> keys srcB"
    using kA(2) kB(2) by (auto simp: set_intersection_def)
  moreover have "set s1 = dom a" "set s2 = dom b"
    using kA kB by simp_all
  note compare_csvs_result [OF 1 2 this]
  ultimately show ?thesis
    using that [OF 1 2 kA(1) kB(1) kA(2) kB(2)] by blast
qed

lemma set_set_difference [simp]: "set (set_difference s1 s2) = set s1 - set s2"
  by (auto simp: set_difference_def)

section \<open>The duplicate detector's result\<close>

lemma keys_positions: "k \<in> keys src \<longleftrightarrow> k \<noteq> [] \<and> positions k src \<noteq> []"
  by (simp add: keys_filter positions_def positions_from_empty)

lemma find_duplicate_result:
  assumes "fs filename = Some (map Inr src)" and "\<forall>r \<in> set src. keyed r"
  obtains res where
    "dup_loop 2 (map Inr src) [] = Inr res"
    "find_duplicate_ips_in_csv fs filename =
       Inr (filter (\<lambda>(ip, rows). length rows > 1) res)"
    "distinct (map fst res)"
    "\<And>k. map_of res k = (if k \<in> keys src then Some (positions k src) else None)"
proof -
  from dup_loop_total [OF assms(2)] obtain res where
    res: "dup_loop 2 (map Inr src) [] = Inr res"
    by blast
  have "find_duplicate_ips_in_csv fs filename =
      Inr (filter (\<lambda>(ip, rows). length rows > 1) res)"
    by (simp add: find_duplicate_ips_in_csv_def assms(1) res)
  moreover have "distinct (map fst res)"
    using dup_loop_distinct [OF res] by simp
  moreover have "map_of res k = (if k \<in> keys src then Some (positions k src) else None)"
    for k
    using dup_loop_map_of [OF res, of k]
    by (simp add: positions_def [symmetric] getdefault_def keys_positions)
  ultimately show ?thesis
    using res that by blast
qed

section \<open>Evaluation of the sample sources\<close>

lemma strip_sample:
  "strip ''10.0.0.1'' = ''10.0.0.1''" "strip '' 10.0.0.1'' = ''10.0.0.1''"
  "strip ''  '' = []" "strip '' '' = []" "strip [] = []"
  "strip ''10.0.0.5'' = ''10.0.0.5''" "strip ''pr-7'' = ''pr-7''" "strip ''PR-7'' = ''PR-7''"
  "strip ''10.0.0.8'' = ''10.0.0.8''"
  "strip ''x1'' = ''x1''" "strip ''x2'' = ''x2''" "strip ''X2'' = ''X2''"
  "strip ''s1'' = ''s1''" "strip ''s2'' = ''s2''" "strip ''s9'' = ''s9''"
  "strip ''t'' = ''t''" "strip ''s'' = ''s''" "strip ''p'' = ''p''" "strip ''q'' = ''q''"
  "strip ''ABC'' = ''ABC''" "strip ''abc'' = ''abc''"
  "strip ''111'' = ''111''" "strip ''111 '' = ''111''"
  by (simp_all add: strip_def isspace_def)

lemma upper_sample:
  "upper ''abc'' = ''ABC''" "upper ''ABC'' = ''ABC''" "upper ''111'' = ''111''"
  "upper ''x1'' = ''X1''" "upper ''x2'' = ''X2''" "upper ''X2'' = ''X2''"
  "upper ''s1'' = ''S1''" "upper ''s2'' = ''S2''" "upper ''s9'' = ''S9''"
  "upper ''p'' = ''P''" "upper ''q'' = ''Q''" "upper [] = []"
  "upper ''pr-7'' = ''PR-7''" "upper ''PR-7'' = ''PR-7''"
  by (simp_all add: upper_def upper_char_def)

lemma field_record_row:
  "field (record_row ip tag serial) ''IP Address'' = Inr (strip ip)"
  "field (record_row ip tag serial) ''ID Tag'' = Inr (strip tag)"
  "field (record_row ip tag serial) ''Serial Number'' = Inr (strip serial)"
  by (simp_all add: field_def record_row_def)

lemma has_key_record_row: "has_key k (record_row ip tag serial) \<longleftrightarrow> strip ip = k"
  by (simp add: has_key_def field_record_row)

lemma loadable_record_row: "loadable (record_row ip tag serial)"
  by (simp add: loadable_def field_record_row)

lemma keyed_record_row: "keyed (record_row ip tag serial)"
  by (simp add: keyed_def field_record_row)

lemma sample_fs_files:
  "sample_fs ''a.csv'' = Some (map Inr source_A)"
  "sample_fs ''b.csv'' = Some (map Inr source_B)"
  by (simp_all add: sample_fs_def)

lemma sample_loadable:
  "\<forall>r \<in> set source_A. loadable r" "\<forall>r \<in> set source_B. loadable r"
  by (simp_all add: source_A_def source_B_def loadable_record_row)

lemma sample_keyed:
  "\<forall>r \<in> set source_A. keyed r" "\<forall>r \<in> set source_B. keyed r"
  by (simp_all add: source_A_def source_B_def keyed_record_row)

lemma sample_loadable_all: "list_all loadable source_A" "list_all loadable source_B"
  using sample_loadable by (simp_all add: list_all_iff)

lemma sample_keyed_all: "list_all keyed source_A" "list_all keyed source_B"
  using sample_keyed by (simp_all add: list_all_iff)

lemma keys_sample:
  "keys source_A = {''10.0.0.1'', ''10.0.0.5'', ''pr-7'', ''10.0.0.8''}"
  "keys source_B = {''10.0.0.5'', ''PR-7'', ''10.0.0.8'', ''10.0.0.1''}"
  by (auto simp: keys_def source_A_def source_B_def field_record_row strip_sample)

lemma positions_sample:
  "positions ''10.0.0.1'' source_A = [2, 3]"
  "positions ''10.0.0.5'' source_A = [5]"
  "positions ''10.0.0.8'' source_A = [7]"
  "positions ''10.0.0.1'' source_B = [5]"
  by (simp_all add: positions_def positions_from_Cons source_A_def source_B_def
      has_key_record_row strip_sample)

section \<open>Properties\<close>

text \<open>
  Claim C4. On every source whose rows all have a key cell, the duplicate detector
  returns a dict with one entry per key, and it maps a key to its list of positions, in
  order, exactly when the key is not blank and occurs at least twice; it has no entry for
  any other key. Positions count from 2 at the first data row. On the sample source,
  whose rows 2 and 3 carry \<open>10.0.0.1\<close>, that key is mapped to \<open>[2, 3]\<close>.
\<close>

theorem duplicate_detector_mapping:
  assumes "fs filename = Some (map Inr src)" and "\<forall>r \<in> set src. keyed r"
  shows "\<exists>dups. find_duplicate_ips_in_csv fs filename = Inr dups \<and>
           distinct (map fst dups) \<and>
           (\<forall>k. map_of dups k =
                  (if k \<noteq> [] \<and> 2 \<le> length (positions k src) then Some (positions k src)
                   else None))"
proof -
  from assms obtain res where
    "dup_loop 2 (map Inr src) [] = Inr res" and
    f: "find_duplicate_ips_in_csv fs filename =
          Inr (filter (\<lambda>(ip, rows). length rows > 1) res)" and
    d: "distinct (map fst res)" and
    m: "\<And>k. map_of res k = (if k \<in> keys src then Some (positions k src) else None)"
    by (rule find_duplicate_result) blast
  let ?dups = "filter (\<lambda>(ip, rows). length rows > 1) res"
  have "distinct (map fst ?dups)"
    using d by (simp add: distinct_map_filter)
  moreover have "map_of ?dups k =
      (if k \<noteq> [] \<and> 2 \<le> length (positions k src) then Some (positions k src) else None)"
    for k
    unfolding map_of_filter_value [OF d] m by (auto simp: keys_positions)
  ultimately show ?thesis
    using f by blast
qed

theorem duplicate_detector_mapping_witness:
  "sample_fs ''a.csv'' = Some (map Inr source_A) \<and> list_all keyed source_A \<and>
   (\<exists>dups. find_duplicate_ips_in_csv sample_fs ''a.csv'' = Inr dups \<and>
      distinct (map fst dups) \<and>
      map_of dups ''10.0.0.1'' = Some [2, 3] \<and> map_of dups ''10.0.0.5'' = None \<and>
      map_of dups [] = None)"
proof -
  from duplicate_detector_mapping [of sample_fs "''a.csv''" source_A,
      OF sample_fs_files(1) sample_keyed(1)]
  obtain dups where
    "find_duplicate_ips_in_csv sample_fs ''a.csv'' = Inr dups" "distinct (map fst dups)" and
    m: "\<And>k. map_of dups k =
      (if k \<noteq> [] \<and> 2 \<le> length (positions k source_A) then Some (positions k source_A)
       else None)"
    by blast
  moreover have "map_of dups ''10.0.0.1'' = Some [2, 3]" "map_of dups ''10.0.0.5'' = None"
    "map_of dups [] = None"
    by (simp_all add: m positions_sample)
  ultimately show ?thesis
    using sample_fs_files(1) sample_keyed_all(1) by blast
qed

lemma emitted_keys:
  "ip_address ` set (map (\<lambda>k. match_record k (f k) (g k)) (filter P ks)) \<union>
   mm_ip_address ` set (map (\<lambda>k. mismatch_record k (f k) (g k)) (filter (\<lambda>k. \<not> P k) ks)) =
   set ks"
  by (auto simp: image_iff)

text \<open>
  Claim C2. On every pair of sources that load, the reconciler returns, and the keys
  only in A are the keys of A without those of B, the keys only in B those of B
  without those of A; the two are disjoint, together with the common keys they are all
  the keys of A and B, and the common keys are the keys of the records emitted as exact
  matches or as conflicts.
\<close>

theorem reconciler_partition:
  assumes "fs f1 = Some (map Inr srcA)" and "fs f2 = Some (map Inr srcB)"
    and "\<forall>r \<in> set srcA. loadable r" and "\<forall>r \<in> set srcB. loadable r"
  shows "\<exists>da mm co po. compare_csvs fs f1 f2 = Inr (da, mm, co, po) \<and>
           set co = keys srcA - keys srcB \<and> set po = keys srcB - keys srcA \<and>
           set co \<inter> set po = {} \<and>
           set co \<union> set po \<union> (keys srcA \<inter> keys srcB) = keys srcA \<union> keys srcB \<and>
           ip_address ` set da \<union> mm_ip_address ` set mm = keys srcA \<inter> keys srcB"
proof -
  from assms obtain a s1 b s2 common where
    s: "set s1 = keys srcA" "set s2 = keys srcB" and
    c: "set common = keys srcA \<inter> keys srcB" and
    r: "compare_csvs fs f1 f2 =
       Inr (map (\<lambda>k. match_record k (the (a k)) (the (b k)))
              (filter (\<lambda>k. agree (the (a k)) (the (b k))) common),
            map (\<lambda>k. mismatch_record k (the (a k)) (the (b k)))
              (filter (\<lambda>k. \<not> agree (the (a k)) (the (b k))) common),
            set_difference s1 s2, set_difference s2 s1)"
    by (rule reconcile) blast
  have "set (set_difference s1 s2) = keys srcA - keys srcB"
    "set (set_difference s2 s1) = keys srcB - keys srcA"
    by (simp_all add: s)
  moreover have "(keys srcA - keys srcB) \<inter> (keys srcB - keys srcA) = {}"
    "(keys srcA - keys srcB) \<union> (keys srcB - keys srcA) \<union> (keys srcA \<inter> keys srcB) =
       keys srcA \<union> keys srcB"
    by blast+
  moreover note emitted_keys [of "\<lambda>k. the (a k)" "\<lambda>k. the (b k)"
      "\<lambda>k. agree (the (a k)) (the (b k))" common, unfolded c]
  ultimately show ?thesis
    unfolding r by (intro exI conjI) (rule refl, simp_all only:)
qed

theorem reconciler_partition_witness:
  "sample_fs ''a.csv'' = Some (map Inr source_A) \<and>
   sample_fs ''b.csv'' = Some (map Inr source_B) \<and>
   list_all loadable source_A \<and> list_all loadable source_B \<and>
   (\<exists>da mm co po. compare_csvs sample_fs ''a.csv'' ''b.csv'' = Inr (da, mm, co, po) \<and>
      set co = {''pr-7''} \<and> set po = {''PR-7''} \<and> set co \<inter> set po = {} \<and>
      set co \<union> set po \<union> {''10.0.0.5'', ''10.0.0.8'', ''10.0.0.1''} =
        keys source_A \<union> keys source_B \<and>
      ip_address ` set da \<union> mm_ip_address ` set mm =
        {''10.0.0.5'', ''10.0.0.8'', ''10.0.0.1''})"
proof -
  have 1: "keys source_A - keys source_B = {''pr-7''}"
    by (simp add: keys_sample insert_Diff_if)
  have 2: "keys source_B - keys source_A = {''PR-7''}"
    by (simp add: keys_sample insert_Diff_if)
  have 3: "keys source_A \<inter> keys source_B = {''10.0.0.5'', ''10.0.0.8'', ''10.0.0.1''}"
    by (simp add: keys_sample)
  note reconciler_partition [of sample_fs "''a.csv''" source_A "''b.csv''" source_B,
      OF sample_fs_files sample_loadable, unfolded 1 2 3]
  with sample_fs_files sample_loadable_all show ?thesis
    by (intro conjI)
qed

lemma filter_emitted_match:
  "distinct ks \<Longrightarrow>
   filter (\<lambda>d. ip_address d = k) (map (\<lambda>k. match_record k (f k) (g k)) (filter P ks)) =
     (if k \<in> set ks \<and> P k then [match_record k (f k) (g k)] else [])"
  by (induction ks) auto

lemma filter_emitted_mismatch:
  "distinct ks \<Longrightarrow>
   filter (\<lambda>m. mm_ip_address m = k) (map (\<lambda>k. mismatch_record k (f k) (g k)) (filter P ks)) =
     (if k \<in> set ks \<and> P k then [mismatch_record k (f k) (g k)] else [])"
  by (induction ks) auto

text \<open>
  What the reconciler does with one common key: the two entries, where their fields come
  from, and the records emitted for the key.
\<close>

lemma reconcile_key:
  assumes A: "fs f1 = Some (map Inr srcA)" and B: "fs f2 = Some (map Inr srcB)"
    and lA: "\<forall>r \<in> set srcA. loadable r" and lB: "\<forall>r \<in> set srcB. loadable r"
    and kA: "k \<in> keys srcA" and kB: "k \<in> keys srcB"
  shows "\<exists>a s1 b s2 da mm co po x y.
    load_csv_as_dict fs f1 = Inr (a, s1) \<and> load_csv_as_dict fs f2 = Inr (b, s2) \<and>
    compare_csvs fs f1 f2 = Inr (da, mm, co, po) \<and>
    a k = Some x \<and> b k = Some y \<and>
    rows x = positions k srcA \<and> rows y = positions k srcB \<and>
    upper_field (last_row k srcA) ''ID Tag'' = Inr (id_tag x) \<and>
    upper_field (last_row k srcA) ''Serial Number'' = Inr (serial_number x) \<and>
    upper_field (last_row k srcB) ''ID Tag'' = Inr (id_tag y) \<and>
    upper_field (last_row k srcB) ''Serial Number'' = Inr (serial_number y) \<and>
    filter (\<lambda>d. ip_address d = k) da = (if agree x y then [match_record k x y] else []) \<and>
    filter (\<lambda>m. mm_ip_address m = k) mm = (if agree x y then [] else [mismatch_record k x y])"
proof -
  from A B lA lB obtain a s1 b s2 common where
    l: "load_csv_as_dict fs f1 = Inr (a, s1)" "load_csv_as_dict fs f2 = Inr (b, s2)" and
    c: "distinct common" "set common = keys srcA \<inter> keys srcB" and
    r: "compare_csvs fs f1 f2 =
       Inr (map (\<lambda>k. match_record k (the (a k)) (the (b k)))
              (filter (\<lambda>k. agree (the (a k)) (the (b k))) common),
            map (\<lambda>k. mismatch_record k (the (a k)) (the (b k)))
              (filter (\<lambda>k. \<not> agree (the (a k)) (the (b k))) common),
            set_difference s1 s2, set_difference s2 s1)"
    by (rule reconcile) blast
  from load_csv_as_dict_entry [of fs f1 srcA a s1 k, OF A l(1) kA] obtain x where
    x: "a k = Some x" "rows x = positions k srcA"
      "upper_field (last_row k srcA) ''ID Tag'' = Inr (id_tag x)"
      "upper_field (last_row k srcA) ''Serial Number'' = Inr (serial_number x)"
    by blast
  from load_csv_as_dict_entry [of fs f2 srcB b s2 k, OF B l(2) kB] obtain y where
    y: "b k = Some y" "rows y = positions k srcB"
      "upper_field (last_row k srcB) ''ID Tag'' = Inr (id_tag y)"
      "upper_field (last_row k srcB) ''Serial Number'' = Inr (serial_number y)"
    by blast
  have k: "k \<in> set common"
    using c(2) kA kB by simp
  let ?da = "map (\<lambda>k. match_record k (the (a k)) (the (b k)))
              (filter (\<lambda>k. agree (the (a k)) (the (b k))) common)"
  let ?mm = "map (\<lambda>k. mismatch_record k (the (a k)) (the (b k)))
              (filter (\<lambda>k. \<not> agree (the (a k)) (the (b k))) common)"
  have "filter (\<lambda>d. ip_address d = k) ?da = (if agree x y then [match_record k x y] else [])"
    using k by (simp add: filter_emitted_match [OF c(1)] x(1) y(1))
  moreover
  have "filter (\<lambda>m. mm_ip_address m = k) ?mm = (if agree x y then [] else [mismatch_record k x y])"
    using k by (simp add: filter_emitted_mismatch [OF c(1)] x(1) y(1))
  ultimately show ?thesis
    using l r x y by blast
qed


lemma upper_field_record_row:
  "upper_field (record_row ip tag serial) ''ID Tag'' = Inr (upper (strip tag))"
  "upper_field (record_row ip tag serial) ''Serial Number'' = Inr (upper (strip serial))"
  by (simp_all add: upper_field_def field_record_row)

lemma last_row_sample:
  "last_row ''10.0.0.5'' source_A = record_row ''10.0.0.5'' ''ABC'' ''111''"
  "last_row ''10.0.0.5'' source_B = record_row ''10.0.0.5'' ''abc'' ''111 ''"
  "last_row ''10.0.0.1'' source_A = record_row '' 10.0.0.1'' ''x2'' ''s2''"
  "last_row ''10.0.0.1'' source_B = record_row ''10.0.0.1'' ''X2'' ''s9''"
  "last_row ''10.0.0.8'' source_A = record_row ''10.0.0.8'' [] ''  ''"
  "last_row ''10.0.0.8'' source_B = record_row ''10.0.0.8'' '' '' []"
  by (simp_all add: last_row_def source_A_def source_B_def has_key_record_row strip_sample)

lemma keys_sample_mem:
  "''10.0.0.5'' \<in> keys source_A" "''10.0.0.5'' \<in> keys source_B"
  "''10.0.0.1'' \<in> keys source_A" "''10.0.0.1'' \<in> keys source_B"
  "''10.0.0.8'' \<in> keys source_A" "''10.0.0.8'' \<in> keys source_B"
  by (simp_all add: keys_sample)

text \<open>
  Claim C1. On every pair of sources that load and for every key of both, the
  reconciler emits exactly one record for the key: an exact-match record, with the key,
  the two position lists and the tag and serial of the first index, and no conflict
  record, when the tags and the serials stored for the key in the two indexes are equal;
  otherwise a conflict record with both sides' values and no exact-match record. The
  stored values are the uppercased, trimmed tag and serial of the last row of that key
  in each source, so that the comparison ignores case.
\<close>

theorem reconciler_classifies_common_key:
  assumes "fs f1 = Some (map Inr srcA)" and "fs f2 = Some (map Inr srcB)"
    and "\<forall>r \<in> set srcA. loadable r" and "\<forall>r \<in> set srcB. loadable r"
    and "k \<in> keys srcA \<inter> keys srcB"
  shows "\<exists>cbs_dict cbs_set poco_dict poco_set da mm co po x y.
    load_csv_as_dict fs f1 = Inr (cbs_dict, cbs_set) \<and>
    load_csv_as_dict fs f2 = Inr (poco_dict, poco_set) \<and>
    compare_csvs fs f1 f2 = Inr (da, mm, co, po) \<and>
    cbs_dict k = Some x \<and> poco_dict k = Some y \<and>
    upper_field (last_row k srcA) ''ID Tag'' = Inr (id_tag x) \<and>
    upper_field (last_row k srcA) ''Serial Number'' = Inr (serial_number x) \<and>
    upper_field (last_row k srcB) ''ID Tag'' = Inr (id_tag y) \<and>
    upper_field (last_row k srcB) ''Serial Number'' = Inr (serial_number y) \<and>
    (if id_tag x = id_tag y \<and> serial_number x = serial_number y
     then filter (\<lambda>d. ip_address d = k) da =
            [\<lparr>ip_address = k, cbs_master_rows = rows x, poco_sheet_rows = rows y,
              dup_id_tag = id_tag x, dup_serial_number = serial_number x\<rparr>] \<and>
          filter (\<lambda>m. mm_ip_address m = k) mm = []
     else filter (\<lambda>d. ip_address d = k) da = [] \<and>
          filter (\<lambda>m. mm_ip_address m = k) mm =
            [\<lparr>mm_ip_address = k, mm_cbs_master_rows = rows x, mm_poco_sheet_rows = rows y,
              file1_id_tag = id_tag x, file1_serial = serial_number x,
              file2_id_tag = id_tag y, file2_serial = serial_number y\<rparr>])"
proof -
  from assms(5) have "k \<in> keys srcA" "k \<in> keys srcB"
    by simp_all
  from reconcile_key [OF assms(1-4) this] obtain a s1 b s2 da mm co po x y where
    "load_csv_as_dict fs f1 = Inr (a, s1)" "load_csv_as_dict fs f2 = Inr (b, s2)"
    "compare_csvs fs f1 f2 = Inr (da, mm, co, po)"
    "a k = Some x" "b k = Some y"
    "upper_field (last_row k srcA) ''ID Tag'' = Inr (id_tag x)"
    "upper_field (last_row k srcA) ''Serial Number'' = Inr (serial_number x)"
    "upper_field (last_row k srcB) ''ID Tag'' = Inr (id_tag y)"
    "upper_field (last_row k srcB) ''Serial Number'' = Inr (serial_number y)"
    "filter (\<lambda>d. ip_address d = k) da = (if agree x y then [match_record k x y] else [])"
    "filter (\<lambda>m. mm_ip_address m = k) mm = (if agree x y then [] else [mismatch_record k x y])"
    by blast
  then show ?thesis
    unfolding agree_def match_record_def mismatch_record_def
    by (intro exI [of _ a] exI [of _ s1] exI [of _ b] exI [of _ s2] exI [of _ da]
        exI [of _ mm] exI [of _ co] exI [of _ po] exI [of _ x] exI [of _ y]) simp
qed

theorem reconciler_classifies_common_key_witness:
  "sample_fs ''a.csv'' = Some (map Inr source_A) \<and>
   sample_fs ''b.csv'' = Some (map Inr source_B) \<and>
   list_all loadable source_A \<and> list_all loadable source_B \<and>
   ''10.0.0.5'' \<in> keys source_A \<inter> keys source_B \<and>
   (\<exists>da mm co po rows_A rows_B.
      compare_csvs sample_fs ''a.csv'' ''b.csv'' = Inr (da, mm, co, po) \<and>
      filter (\<lambda>d. ip_address d = ''10.0.0.5'') da =
        [\<lparr>ip_address = ''10.0.0.5'', cbs_master_rows = rows_A, poco_sheet_rows = rows_B,
          dup_id_tag = ''ABC'', dup_serial_number = ''111''\<rparr>] \<and>
      filter (\<lambda>m. mm_ip_address m = ''10.0.0.5'') mm = [])"
proof -
  have k: "''10.0.0.5'' \<in> keys source_A \<inter> keys source_B"
    by (simp add: keys_sample_mem)
  from reconciler_classifies_common_key [of sample_fs "''a.csv''" source_A "''b.csv''" source_B
      "''10.0.0.5''", OF sample_fs_files sample_loadable k]
  obtain da mm co po and x y :: info where
    c: "compare_csvs sample_fs ''a.csv'' ''b.csv'' = Inr (da, mm, co, po)" and
    t: "upper_field (last_row ''10.0.0.5'' source_A) ''ID Tag'' = Inr (id_tag x)"
      "upper_field (last_row ''10.0.0.5'' source_A) ''Serial Number'' = Inr (serial_number x)"
      "upper_field (last_row ''10.0.0.5'' source_B) ''ID Tag'' = Inr (id_tag y)"
      "upper_field (last_row ''10.0.0.5'' source_B) ''Serial Number'' = Inr (serial_number y)"
      and
    i: "if id_tag x = id_tag y \<and> serial_number x = serial_number y
     then filter (\<lambda>d. ip_address d = ''10.0.0.5'') da =
            [\<lparr>ip_address = ''10.0.0.5'', cbs_master_rows = rows x, poco_sheet_rows = rows y,
              dup_id_tag = id_tag x, dup_serial_number = serial_number x\<rparr>] \<and>
          filter (\<lambda>m. mm_ip_address m = ''10.0.0.5'') mm = []
     else filter (\<lambda>d. ip_address d = ''10.0.0.5'') da = [] \<and>
          filter (\<lambda>m. mm_ip_address m = ''10.0.0.5'') mm =
            [\<lparr>mm_ip_address = ''10.0.0.5'', mm_cbs_master_rows = rows x,
              mm_poco_sheet_rows = rows y,
              file1_id_tag = id_tag x, file1_serial = serial_number x,
              file2_id_tag = id_tag y, file2_serial = serial_number y\<rparr>]"
    by blast
  note e = last_row_sample upper_field_record_row strip_sample upper_sample
  have v: "id_tag x = ''ABC''" "serial_number x = ''111''" "id_tag y = ''ABC''"
    "serial_number y = ''111''"
    using t(1) apply (simp add: e)
    using t(2) apply (simp add: e)
    using t(3) apply (simp add: e)
    using t(4) apply (simp add: e)
    done
  from i have
    "filter (\<lambda>d. ip_address d = ''10.0.0.5'') da =
        [\<lparr>ip_address = ''10.0.0.5'', cbs_master_rows = rows x, poco_sheet_rows = rows y,
          dup_id_tag = ''ABC'', dup_serial_number = ''111''\<rparr>] \<and>
     filter (\<lambda>m. mm_ip_address m = ''10.0.0.5'') mm = []"
    unfolding v by simp
  with c have "\<exists>da mm co po rows_A rows_B.
      compare_csvs sample_fs ''a.csv'' ''b.csv'' = Inr (da, mm, co, po) \<and>
      filter (\<lambda>d. ip_address d = ''10.0.0.5'') da =
        [\<lparr>ip_address = ''10.0.0.5'', cbs_master_rows = rows_A, poco_sheet_rows = rows_B,
          dup_id_tag = ''ABC'', dup_serial_number = ''111''\<rparr>] \<and>
      filter (\<lambda>m. mm_ip_address m = ''10.0.0.5'') mm = []"
    by (intro exI [of _ da] exI [of _ mm] exI [of _ co] exI [of _ po] exI [of _ "rows x"]
        exI [of _ "rows y"]) simp
  with sample_fs_files sample_loadable_all k show ?thesis
    by (intro conjI)
qed

lemma upper_Nil [simp]: "upper [] = []"
  by (simp add: upper_def)

lemma upper_field_blank:
  "field r col = Inr [] \<Longrightarrow> upper_field r col = Inr []"
  by (simp add: upper_field_def)

text \<open>
  Claim C7. A key of both sources whose last rows have a blank tag and a blank serial on
  both sides is emitted as one exact-match record, with the two position lists and empty
  tag and serial, and as no conflict record.
\<close>

theorem blank_tag_serial_exact_match:
  assumes "fs f1 = Some (map Inr srcA)" and "fs f2 = Some (map Inr srcB)"
    and "\<forall>r \<in> set srcA. loadable r" and "\<forall>r \<in> set srcB. loadable r"
    and "k \<in> keys srcA" and "k \<in> keys srcB"
    and "field (last_row k srcA) ''ID Tag'' = Inr []"
    and "field (last_row k srcA) ''Serial Number'' = Inr []"
    and "field (last_row k srcB) ''ID Tag'' = Inr []"
    and "field (last_row k srcB) ''Serial Number'' = Inr []"
  shows "\<exists>da mm co po. compare_csvs fs f1 f2 = Inr (da, mm, co, po) \<and>
    filter (\<lambda>d. ip_address d = k) da =
      [\<lparr>ip_address = k, cbs_master_rows = positions k srcA,
        poco_sheet_rows = positions k srcB, dup_id_tag = [], dup_serial_number = []\<rparr>] \<and>
    filter (\<lambda>m. mm_ip_address m = k) mm = []"
proof -
  from reconcile_key [OF assms(1-6)] obtain da mm co po and x y :: info where
    c: "compare_csvs fs f1 f2 = Inr (da, mm, co, po)" and
    r: "rows x = positions k srcA" "rows y = positions k srcB" and
    t: "upper_field (last_row k srcA) ''ID Tag'' = Inr (id_tag x)"
      "upper_field (last_row k srcA) ''Serial Number'' = Inr (serial_number x)"
      "upper_field (last_row k srcB) ''ID Tag'' = Inr (id_tag y)"
      "upper_field (last_row k srcB) ''Serial Number'' = Inr (serial_number y)" and
    f: "filter (\<lambda>d. ip_address d = k) da = (if agree x y then [match_record k x y] else [])"
      "filter (\<lambda>m. mm_ip_address m = k) mm = (if agree x y then [] else [mismatch_record k x y])"
    by blast
  have v: "id_tag x = []" "serial_number x = []" "id_tag y = []" "serial_number y = []"
    using t assms(7-10) by (simp_all add: upper_field_blank)
  then have "agree x y"
    by (simp add: agree_def)
  with f v r have
    "filter (\<lambda>d. ip_address d = k) da =
      [\<lparr>ip_address = k, cbs_master_rows = positions k srcA,
        poco_sheet_rows = positions k srcB, dup_id_tag = [], dup_serial_number = []\<rparr>]"
    "filter (\<lambda>m. mm_ip_address m = k) mm = []"
    by (simp_all add: match_record_def)
  with c show ?thesis
    by blast
qed

theorem blank_tag_serial_exact_match_witness:
  "sample_fs ''a.csv'' = Some (map Inr source_A) \<and>
   sample_fs ''b.csv'' = Some (map Inr source_B) \<and>
   list_all loadable source_A \<and> list_all loadable source_B \<and>
   ''10.0.0.8'' \<in> keys source_A \<and> ''10.0.0.8'' \<in> keys source_B \<and>
   field (last_row ''10.0.0.8'' source_A) ''ID Tag'' = Inr [] \<and>
   field (last_row ''10.0.0.8'' source_A) ''Serial Number'' = Inr [] \<and>
   field (last_row ''10.0.0.8'' source_B) ''ID Tag'' = Inr [] \<and>
   field (last_row ''10.0.0.8'' source_B) ''Serial Number'' = Inr [] \<and>
   (\<exists>da mm co po. compare_csvs sample_fs ''a.csv'' ''b.csv'' = Inr (da, mm, co, po) \<and>
      filter (\<lambda>d. ip_address d = ''10.0.0.8'') da =
        [\<lparr>ip_address = ''10.0.0.8'', cbs_master_rows = [7], poco_sheet_rows = [4],
          dup_id_tag = [], dup_serial_number = []\<rparr>] \<and>
      filter (\<lambda>m. mm_ip_address m = ''10.0.0.8'') mm = [])"
proof -
  have b: "field (last_row ''10.0.0.8'' source_A) ''ID Tag'' = Inr []"
    "field (last_row ''10.0.0.8'' source_A) ''Serial Number'' = Inr []"
    "field (last_row ''10.0.0.8'' source_B) ''ID Tag'' = Inr []"
    "field (last_row ''10.0.0.8'' source_B) ''Serial Number'' = Inr []"
    by (simp_all add: last_row_sample field_record_row strip_sample)
  have p: "positions ''10.0.0.8'' source_A = [7]" "positions ''10.0.0.8'' source_B = [4]"
    by (simp_all add: positions_def positions_from_Cons source_A_def source_B_def
        has_key_record_row strip_sample)
  note blank_tag_serial_exact_match [of sample_fs "''a.csv''" source_A "''b.csv''" source_B
      "''10.0.0.8''", OF sample_fs_files sample_loadable keys_sample_mem(5,6) b, unfolded p]
  with sample_fs_files sample_loadable_all keys_sample_mem(5,6) b show ?thesis
    by (intro conjI)
qed

lemma filter_ex_iff: "(\<exists>x \<in> set xs. P x) \<longleftrightarrow> filter P xs \<noteq> []"
  by (simp add: filter_empty_conv)

text \<open>
  Claim C3. For a key that occurs in a source, once or more, the loader's entry holds
  all the positions of the key, in order, and the uppercased, trimmed tag and serial of
  the last row that carries the key. The reconciler emits an exact match for a key of
  both sources exactly when these values of the two last rows are equal, and a conflict
  exactly when they are not.
\<close>

theorem last_occurrence_wins:
  assumes "fs f1 = Some (map Inr srcA)" and "fs f2 = Some (map Inr srcB)"
    and "\<forall>r \<in> set srcA. loadable r" and "\<forall>r \<in> set srcB. loadable r"
    and "k \<in> keys srcA" and "k \<in> keys srcB"
  shows "\<exists>cbs_dict cbs_set e da mm co po.
    load_csv_as_dict fs f1 = Inr (cbs_dict, cbs_set) \<and> cbs_dict k = Some e \<and>
    rows e = positions k srcA \<and>
    upper_field (last_row k srcA) ''ID Tag'' = Inr (id_tag e) \<and>
    upper_field (last_row k srcA) ''Serial Number'' = Inr (serial_number e) \<and>
    compare_csvs fs f1 f2 = Inr (da, mm, co, po) \<and>
    ((\<exists>d \<in> set da. ip_address d = k) \<longleftrightarrow>
       upper_field (last_row k srcA) ''ID Tag'' = upper_field (last_row k srcB) ''ID Tag'' \<and>
       upper_field (last_row k srcA) ''Serial Number'' =
         upper_field (last_row k srcB) ''Serial Number'') \<and>
    ((\<exists>m \<in> set mm. mm_ip_address m = k) \<longleftrightarrow>
       \<not> (upper_field (last_row k srcA) ''ID Tag'' = upper_field (last_row k srcB) ''ID Tag'' \<and>
          upper_field (last_row k srcA) ''Serial Number'' =
            upper_field (last_row k srcB) ''Serial Number''))"
proof -
  from reconcile_key [OF assms] obtain a s1 da mm co po and x y :: info where
    l: "load_csv_as_dict fs f1 = Inr (a, s1)" "a k = Some x" "rows x = positions k srcA" and
    c: "compare_csvs fs f1 f2 = Inr (da, mm, co, po)" and
    t: "upper_field (last_row k srcA) ''ID Tag'' = Inr (id_tag x)"
      "upper_field (last_row k srcA) ''Serial Number'' = Inr (serial_number x)"
      "upper_field (last_row k srcB) ''ID Tag'' = Inr (id_tag y)"
      "upper_field (last_row k srcB) ''Serial Number'' = Inr (serial_number y)" and
    f: "filter (\<lambda>d. ip_address d = k) da = (if agree x y then [match_record k x y] else [])"
      "filter (\<lambda>m. mm_ip_address m = k) mm = (if agree x y then [] else [mismatch_record k x y])"
    by blast
  have g: "agree x y \<longleftrightarrow>
      upper_field (last_row k srcA) ''ID Tag'' = upper_field (last_row k srcB) ''ID Tag'' \<and>
      upper_field (last_row k srcA) ''Serial Number'' =
        upper_field (last_row k srcB) ''Serial Number''"
    by (simp add: t agree_def)
  have "(\<exists>d \<in> set da. ip_address d = k) \<longleftrightarrow> agree x y"
    unfolding filter_ex_iff f by simp
  moreover have "(\<exists>m \<in> set mm. mm_ip_address m = k) \<longleftrightarrow> \<not> agree x y"
    unfolding filter_ex_iff f by simp
  ultimately show ?thesis
    unfolding g using l c t(1,2) by blast
qed

theorem last_occurrence_wins_witness:
  "sample_fs ''a.csv'' = Some (map Inr source_A) \<and>
   sample_fs ''b.csv'' = Some (map Inr source_B) \<and>
   list_all loadable source_A \<and> list_all loadable source_B \<and>
   ''10.0.0.1'' \<in> keys source_A \<and> ''10.0.0.1'' \<in> keys source_B \<and>
   (\<exists>cbs_dict cbs_set e da mm co po.
      load_csv_as_dict sample_fs ''a.csv'' = Inr (cbs_dict, cbs_set) \<and>
      cbs_dict ''10.0.0.1'' = Some e \<and> rows e = [2, 3] \<and>
      id_tag e = ''X2'' \<and> serial_number e = ''S2'' \<and>
      compare_csvs sample_fs ''a.csv'' ''b.csv'' = Inr (da, mm, co, po) \<and>
      \<not> (\<exists>d \<in> set da. ip_address d = ''10.0.0.1'') \<and>
      (\<exists>m \<in> set mm. mm_ip_address m = ''10.0.0.1''))"
proof -
  note e = last_row_sample upper_field_record_row strip_sample upper_sample
  from last_occurrence_wins [of sample_fs "''a.csv''" source_A "''b.csv''" source_B
      "''10.0.0.1''", OF sample_fs_files sample_loadable keys_sample_mem(3,4)]
  obtain cbs_dict cbs_set da mm co po and e :: info where
    l: "load_csv_as_dict sample_fs ''a.csv'' = Inr (cbs_dict, cbs_set)"
      "cbs_dict ''10.0.0.1'' = Some e" and
    r: "rows e = positions ''10.0.0.1'' source_A" and
    t: "upper_field (last_row ''10.0.0.1'' source_A) ''ID Tag'' = Inr (id_tag e)"
      "upper_field (last_row ''10.0.0.1'' source_A) ''Serial Number'' = Inr (serial_number e)"
      and
    c: "compare_csvs sample_fs ''a.csv'' ''b.csv'' = Inr (da, mm, co, po)" and
    d: "(\<exists>d \<in> set da. ip_address d = ''10.0.0.1'') \<longleftrightarrow>
       upper_field (last_row ''10.0.0.1'' source_A) ''ID Tag'' =
         upper_field (last_row ''10.0.0.1'' source_B) ''ID Tag'' \<and>
       upper_field (last_row ''10.0.0.1'' source_A) ''Serial Number'' =
         upper_field (last_row ''10.0.0.1'' source_B) ''Serial Number''" and
    m: "(\<exists>m \<in> set mm. mm_ip_address m = ''10.0.0.1'') \<longleftrightarrow>
       \<not> (upper_field (last_row ''10.0.0.1'' source_A) ''ID Tag'' =
            upper_field (last_row ''10.0.0.1'' source_B) ''ID Tag'' \<and>
          upper_field (last_row ''10.0.0.1'' source_A) ''Serial Number'' =
            upper_field (last_row ''10.0.0.1'' source_B) ''Serial Number'')"
    by blast
  have 1: "rows e = [2, 3]"
    using r by (simp add: positions_sample)
  have 2: "id_tag e = ''X2''"
    using t(1) by (simp add: e)
  have 3: "serial_number e = ''S2''"
    using t(2) by (simp add: e)
  have 4: "\<not> (\<exists>d \<in> set da. ip_address d = ''10.0.0.1'')"
    unfolding d by (simp add: e)
  have 5: "\<exists>m \<in> set mm. mm_ip_address m = ''10.0.0.1''"
    unfolding m by (simp add: e)
  from l 1 2 3 c 4 5 have "\<exists>cbs_dict cbs_set e da mm co po.
      load_csv_as_dict sample_fs ''a.csv'' = Inr (cbs_dict, cbs_set) \<and>
      cbs_dict ''10.0.0.1'' = Some e \<and> rows e = [2, 3] \<and>
      id_tag e = ''X2'' \<and> serial_number e = ''S2'' \<and>
      compare_csvs sample_fs ''a.csv'' ''b.csv'' = Inr (da, mm, co, po) \<and>
      \<not> (\<exists>d \<in> set da. ip_address d = ''10.0.0.1'') \<and>
      (\<exists>m \<in> set mm. mm_ip_address m = ''10.0.0.1'')"
    by (intro exI [of _ cbs_dict] exI [of _ cbs_set] exI [of _ e] exI [of _ da]
        exI [of _ mm] exI [of _ co] exI [of _ po] conjI)
  with sample_fs_files sample_loadable_all keys_sample_mem(3,4) show ?thesis
    by (intro conjI)
qed

lemma upper_field_raw:
  "upper_field r col = Inr v \<Longrightarrow> \<exists>raw. r col = Some (Some raw) \<and> v = upper (strip raw)"
  by (auto simp: upper_field_def field_def split: option.splits sum.splits)

lemma positions_last_row:
  assumes "k \<in> keys src"
  shows "positions k src \<noteq> []" and "sorted_wrt (<) (positions k src)"
    and "2 \<le> last (positions k src)" and "last (positions k src) - 2 < length src"
    and "src ! (last (positions k src) - 2) = last_row k src"
proof -
  from assms have f: "filter (has_key k) src \<noteq> []"
    by (simp add: keys_filter)
  show "positions k src \<noteq> []"
    using f by (simp add: positions_def positions_from_empty)
  show "sorted_wrt (<) (positions k src)"
    by (simp add: positions_def sorted_positions_from)
  from last_positions_from [OF f, of 2]
  show "2 \<le> last (positions k src)" "last (positions k src) - 2 < length src"
    "src ! (last (positions k src) - 2) = last_row k src"
    by (simp_all add: positions_def last_row_def)
qed

text \<open>
  Claim C10. On every source that loads, the keys of the loader's index are the keys of
  the source, and for every entry the position list is the list of the positions of the
  key: it is not empty and strictly increasing, its last position is that of a row of
  the source, and the stored tag and serial are the uppercased, trimmed \<open>ID Tag\<close> and
  \<open>Serial Number\<close> cells of that row.
\<close>

theorem key_index_entry:
  assumes "fs filename = Some (map Inr src)" and "\<forall>r \<in> set src. loadable r"
  shows "\<exists>d s. load_csv_as_dict fs filename = Inr (d, s) \<and> dom d = keys src \<and>
    (\<forall>k e. d k = Some e \<longrightarrow>
       rows e = positions k src \<and> rows e \<noteq> [] \<and> sorted_wrt (<) (rows e) \<and>
       2 \<le> last (rows e) \<and> last (rows e) - 2 < length src \<and>
       has_key k (src ! (last (rows e) - 2)) \<and>
       (\<exists>raw_tag raw_serial.
          (src ! (last (rows e) - 2)) ''ID Tag'' = Some (Some raw_tag) \<and>
          id_tag e = upper (strip raw_tag) \<and>
          (src ! (last (rows e) - 2)) ''Serial Number'' = Some (Some raw_serial) \<and>
          serial_number e = upper (strip raw_serial)))"
proof -
  from load_csv_as_dict_total [of fs filename src, OF assms] obtain d s where
    l: "load_csv_as_dict fs filename = Inr (d, s)"
    by blast
  note dom = load_csv_as_dict_keys(1) [of fs filename src, OF assms(1) l]
  have "rows e = positions k src \<and> rows e \<noteq> [] \<and> sorted_wrt (<) (rows e) \<and>
       2 \<le> last (rows e) \<and> last (rows e) - 2 < length src \<and>
       has_key k (src ! (last (rows e) - 2)) \<and>
       (\<exists>raw_tag raw_serial.
          (src ! (last (rows e) - 2)) ''ID Tag'' = Some (Some raw_tag) \<and>
          id_tag e = upper (strip raw_tag) \<and>
          (src ! (last (rows e) - 2)) ''Serial Number'' = Some (Some raw_serial) \<and>
          serial_number e = upper (strip raw_serial))"
    if e: "d k = Some e" for k e
  proof -
    from e dom have k: "k \<in> keys src"
      by auto
    from load_csv_as_dict_entry [of fs filename src d s k, OF assms(1) l k] e
    have r: "rows e = positions k src" and
      t: "upper_field (last_row k src) ''ID Tag'' = Inr (id_tag e)"
        "upper_field (last_row k src) ''Serial Number'' = Inr (serial_number e)"
      by auto
    note p = positions_last_row [OF k]
    from k have "filter (has_key k) src \<noteq> []"
      by (simp add: keys_filter)
    then have "last (filter (has_key k) src) \<in> set (filter (has_key k) src)"
      by (rule last_in_set)
    then have h: "has_key k (last_row k src)"
      by (simp add: last_row_def)
    from upper_field_raw [OF t(1)] upper_field_raw [OF t(2)] p h show ?thesis
      unfolding r by (simp only:) blast
  qed
  with l dom show ?thesis
    by blast
qed

theorem key_index_entry_witness:
  "sample_fs ''a.csv'' = Some (map Inr source_A) \<and> list_all loadable source_A \<and>
   (\<exists>d s e. load_csv_as_dict sample_fs ''a.csv'' = Inr (d, s) \<and>
      d ''10.0.0.1'' = Some e \<and> rows e = [2, 3] \<and>
      (\<exists>raw_tag raw_serial.
          (source_A ! 1) ''ID Tag'' = Some (Some raw_tag) \<and>
          id_tag e = upper (strip raw_tag) \<and>
          (source_A ! 1) ''Serial Number'' = Some (Some raw_serial) \<and>
          serial_number e = upper (strip raw_serial)))"
proof -
  from key_index_entry [of sample_fs "''a.csv''" source_A,
      OF sample_fs_files(1) sample_loadable(1)]
  obtain d s where
    l: "load_csv_as_dict sample_fs ''a.csv'' = Inr (d, s)" and
    dom: "dom d = keys source_A" and
    a: "\<And>k e. d k = Some e \<Longrightarrow>
       rows e = positions k source_A \<and>
       (\<exists>raw_tag raw_serial.
          (source_A ! (last (rows e) - 2)) ''ID Tag'' = Some (Some raw_tag) \<and>
          id_tag e = upper (strip raw_tag) \<and>
          (source_A ! (last (rows e) - 2)) ''Serial Number'' = Some (Some raw_serial) \<and>
          serial_number e = upper (strip raw_serial))"
    by blast
  from dom keys_sample_mem(3) obtain e where e: "d ''10.0.0.1'' = Some e"
    by blast
  from a [OF e] have r: "rows e = [2, 3]"
    by (simp add: positions_sample)
  from a [OF e] have "\<exists>raw_tag raw_serial.
          (source_A ! 1) ''ID Tag'' = Some (Some raw_tag) \<and>
          id_tag e = upper (strip raw_tag) \<and>
          (source_A ! 1) ''Serial Number'' = Some (Some raw_serial) \<and>
          serial_number e = upper (strip raw_serial)"
    unfolding r by simp
  with l e r sample_fs_files(1) sample_loadable_all(1) show ?thesis
    by blast
qed

lemma count_positions_simps [simp]:
  "count_positions [] = 0"
  "count_positions ((k, ps) # d) = length ps + count_positions d"
  by (simp_all add: count_positions_def)

lemma count_nonblank_rows_simps [simp]:
  "count_nonblank_rows [] = 0"
  "count_nonblank_rows (r # src) = (if has_key [] r then 0 else 1) + count_nonblank_rows src"
  by (simp_all add: count_nonblank_rows_def)

lemma count_setdefault_append:
  "count_positions (setdefault_append ip n d) = Suc (count_positions d)"
  by (induction ip n d rule: setdefault_append.induct) auto

lemma dup_loop_count:
  "dup_loop n (map Inr src) acc = Inr res \<Longrightarrow>
   count_positions res = count_positions acc + count_nonblank_rows src"
proof (induction src arbitrary: n acc)
  case Nil
  then show ?case by simp
next
  case (Cons r src)
  from Cons.prems obtain acc' where
    step: "dup_step n r acc = Inr acc'" and
    rest: "dup_loop (Suc n) (map Inr src) acc' = Inr res"
    by (auto split: sum.splits)
  from step have "count_positions acc' =
      count_positions acc + (if has_key [] r then 0 else 1)"
    by (auto simp: dup_step_def has_key_def count_setdefault_append
        split: sum.splits if_splits)
  with Cons.IH [OF rest] show ?case
    by simp
qed

lemma count_filter_le:
  "count_positions (filter P d) \<le> count_positions d"
  by (induction d) auto

lemma count_filter_eq:
  assumes "\<forall>(k, ps) \<in> set d. ps \<noteq> []"
  shows "count_positions (filter P d) = count_positions d \<longleftrightarrow> (\<forall>x \<in> set d. P x)"
  using assms
proof (induction d)
  case Nil
  then show ?case by simp
next
  case (Cons x d)
  obtain k ps where x: "x = (k, ps)" by (cases x)
  have "count_positions (filter P d) \<le> count_positions d"
    by (rule count_filter_le)
  with Cons show ?case
    by (auto simp: x)
qed

lemma entries_of_map_of:
  assumes "distinct (map fst res)"
    and "\<And>k. map_of res k = (if k \<in> keys src then Some (positions k src) else None)"
  shows "(k, ps) \<in> set res \<longleftrightarrow> k \<in> keys src \<and> ps = positions k src"
proof -
  have "(k, ps) \<in> set res \<longleftrightarrow> map_of res k = Some ps"
    using assms(1) by simp
  then show ?thesis
    by (auto simp: assms(2))
qed

text \<open>
  Claim C6. On every source whose rows all have a key cell, the lengths of the position
  lists that the duplicate detector returns add up to at most the number of rows with a
  non-blank key, and to exactly that number if and only if every key of the source
  occurs at least twice.
\<close>

theorem duplicate_positions_bound:
  assumes "fs filename = Some (map Inr src)" and "\<forall>r \<in> set src. keyed r"
  shows "\<exists>dups. find_duplicate_ips_in_csv fs filename = Inr dups \<and>
    count_positions dups \<le> count_nonblank_rows src \<and>
    (count_positions dups = count_nonblank_rows src \<longleftrightarrow>
       (\<forall>k \<in> keys src. 2 \<le> length (positions k src)))"
proof -
  from assms obtain res where
    l: "dup_loop 2 (map Inr src) [] = Inr res" and
    f: "find_duplicate_ips_in_csv fs filename =
          Inr (filter (\<lambda>(ip, rows). length rows > 1) res)" and
    d: "distinct (map fst res)" and
    m: "\<And>k. map_of res k = (if k \<in> keys src then Some (positions k src) else None)"
    by (rule find_duplicate_result) blast
  let ?P = "\<lambda>(ip, rows :: nat list). length rows > 1"
  have total: "count_positions res = count_nonblank_rows src"
    using dup_loop_count [OF l] by simp
  have mem: "(k, ps) \<in> set res \<longleftrightarrow> k \<in> keys src \<and> ps = positions k src" for k ps
    by (rule entries_of_map_of [OF d m])
  have pos: "\<forall>(k, ps) \<in> set res. ps \<noteq> []"
    using mem by (auto simp: keys_positions)
  have all: "(\<forall>x \<in> set res. ?P x) \<longleftrightarrow> (\<forall>k \<in> keys src. 2 \<le> length (positions k src))"
  proof
    assume a: "\<forall>x \<in> set res. ?P x"
    show "\<forall>k \<in> keys src. 2 \<le> length (positions k src)"
    proof
      fix k assume "k \<in> keys src"
      then have "(k, positions k src) \<in> set res"
        by (simp add: mem)
      with a show "2 \<le> length (positions k src)"
        by fastforce
    qed
  next
    assume a: "\<forall>k \<in> keys src. 2 \<le> length (positions k src)"
    show "\<forall>x \<in> set res. ?P x"
    proof
      fix x assume "x \<in> set res"
      then have "fst x \<in> keys src" "snd x = positions (fst x) src"
        using mem [of "fst x" "snd x"] by simp_all
      with a show "?P x"
        by (cases x) fastforce
    qed
  qed
  have "count_positions (filter ?P res) \<le>
      count_nonblank_rows src"
    unfolding total [symmetric] by (rule count_filter_le)
  moreover have "count_positions (filter ?P res) =
      count_nonblank_rows src \<longleftrightarrow>
      (\<forall>k \<in> keys src. 2 \<le> length (positions k src))"
    unfolding total [symmetric] all [symmetric] by (rule count_filter_eq [OF pos])
  ultimately show ?thesis
    using f by blast
qed

theorem duplicate_positions_bound_witness:
  "sample_fs ''a.csv'' = Some (map Inr source_A) \<and> list_all keyed source_A \<and>
   (\<exists>dups. find_duplicate_ips_in_csv sample_fs ''a.csv'' = Inr dups \<and>
      count_positions dups \<le> 5 \<and>
      count_positions dups \<noteq> 5)"
proof -
  have n: "count_nonblank_rows source_A = 5"
    by (simp add: source_A_def has_key_record_row strip_sample)
  have "\<not> 2 \<le> length (positions ''10.0.0.5'' source_A)"
    by (simp add: positions_sample)
  with keys_sample_mem(1) have k: "\<not> (\<forall>k \<in> keys source_A. 2 \<le> length (positions k source_A))"
    by blast
  from duplicate_positions_bound [of sample_fs "''a.csv''" source_A,
      OF sample_fs_files(1) sample_keyed(1)]
  have "\<exists>dups. find_duplicate_ips_in_csv sample_fs ''a.csv'' = Inr dups \<and>
      count_positions dups \<le> 5 \<and>
      count_positions dups \<noteq> 5"
    unfolding n using k by blast
  with sample_fs_files(1) sample_keyed_all(1) show ?thesis
    by (intro conjI)
qed

section \<open>Blank keys and exact keys\<close>

lemma loadable_keyed: "loadable r \<Longrightarrow> keyed r"
  by (auto simp: loadable_def keyed_def split: sum.splits)

lemma has_key_unique: "has_key k r \<Longrightarrow> has_key k' r \<Longrightarrow> k = k'"
  by (simp add: has_key_def)

lemma position_in_positions:
  "i < length src \<Longrightarrow> i + 2 \<in> set (positions k src) \<longleftrightarrow> has_key k (src ! i)"
  by (auto simp: positions_def set_positions_from)

lemma blank_not_key [simp]: "[] \<notin> keys src"
  by (simp add: keys_iff)

text \<open>
  The records that the reconciler returns on two sources that load: their keys are
  common keys, and their position lists are the positions of the key in each source.
\<close>

lemma reconcile_records:
  assumes A: "fs f1 = Some (map Inr srcA)" and B: "fs f2 = Some (map Inr srcB)"
    and lA: "\<forall>r \<in> set srcA. loadable r" and lB: "\<forall>r \<in> set srcB. loadable r"
  obtains da mm co po where
    "compare_csvs fs f1 f2 = Inr (da, mm, co, po)"
    "set co = keys srcA - keys srcB" "set po = keys srcB - keys srcA"
    "\<And>x. x \<in> set da \<Longrightarrow> ip_address x \<in> keys srcA \<inter> keys srcB \<and>
       cbs_master_rows x = positions (ip_address x) srcA \<and>
       poco_sheet_rows x = positions (ip_address x) srcB"
    "\<And>m. m \<in> set mm \<Longrightarrow> mm_ip_address m \<in> keys srcA \<inter> keys srcB \<and>
       mm_cbs_master_rows m = positions (mm_ip_address m) srcA \<and>
       mm_poco_sheet_rows m = positions (mm_ip_address m) srcB"
proof -
  from A B lA lB obtain a s1 b s2 common where
    l: "load_csv_as_dict fs f1 = Inr (a, s1)" "load_csv_as_dict fs f2 = Inr (b, s2)" and
    s: "set s1 = keys srcA" "set s2 = keys srcB" and
    c: "set common = keys srcA \<inter> keys srcB" and
    r: "compare_csvs fs f1 f2 =
       Inr (map (\<lambda>k. match_record k (the (a k)) (the (b k)))
              (filter (\<lambda>k. agree (the (a k)) (the (b k))) common),
            map (\<lambda>k. mismatch_record k (the (a k)) (the (b k)))
              (filter (\<lambda>k. \<not> agree (the (a k)) (the (b k))) common),
            set_difference s1 s2, set_difference s2 s1)"
    by (rule reconcile) blast
  have e: "rows (the (a k)) = positions k srcA \<and> rows (the (b k)) = positions k srcB"
    if "k \<in> set common" for k
  proof -
    from that c have k: "k \<in> keys srcA" "k \<in> keys srcB"
      by simp_all
    from load_csv_as_dict_entry [of fs f1 srcA a s1 k, OF A l(1) k(1)]
      load_csv_as_dict_entry [of fs f2 srcB b s2 k, OF B l(2) k(2)]
    show ?thesis
      by auto
  qed
  show ?thesis
  proof (rule that [OF r])
    show "set (set_difference s1 s2) = keys srcA - keys srcB"
      "set (set_difference s2 s1) = keys srcB - keys srcA"
      by (simp_all add: s)
  next
    fix x
    assume "x \<in> set (map (\<lambda>k. match_record k (the (a k)) (the (b k)))
              (filter (\<lambda>k. agree (the (a k)) (the (b k))) common))"
    then obtain k where "k \<in> set common" "x = match_record k (the (a k)) (the (b k))"
      by auto
    with e [of k] c
    show "ip_address x \<in> keys srcA \<inter> keys srcB \<and>
       cbs_master_rows x = positions (ip_address x) srcA \<and>
       poco_sheet_rows x = positions (ip_address x) srcB"
      by simp
  next
    fix m
    assume "m \<in> set (map (\<lambda>k. mismatch_record k (the (a k)) (the (b k)))
              (filter (\<lambda>k. \<not> agree (the (a k)) (the (b k))) common))"
    then obtain k where "k \<in> set common" "m = mismatch_record k (the (a k)) (the (b k))"
      by auto
    with e [of k] c
    show "mm_ip_address m \<in> keys srcA \<inter> keys srcB \<and>
       mm_cbs_master_rows m = positions (mm_ip_address m) srcA \<and>
       mm_poco_sheet_rows m = positions (mm_ip_address m) srcB"
      by simp
  qed
qed

lemma blank_row_position:
  assumes "i < length src" and "has_key [] (src ! i)" and "k \<in> keys src"
  shows "i + 2 \<notin> set (positions k src)"
proof
  assume "i + 2 \<in> set (positions k src)"
  with position_in_positions [OF assms(1), of k] have "has_key k (src ! i)"
    by blast
  with assms(2) have "k = []"
    by (rule has_key_unique [symmetric])
  with assms(3) show False
    by simp
qed

text \<open>
  Claim C5. On every pair of sources that load, the blank key is in no collection: it
  is no key of the duplicate detector's result, of the loader's index or key set, of the
  keys only in A or only in B, and of no exact-match or conflict record. The position of
  a row of A whose key is blank is in no position list of the duplicate detector's
  result, of the index, or of an emitted record.
\<close>

theorem blank_key_rows_skipped:
  assumes "fs f1 = Some (map Inr srcA)" and "fs f2 = Some (map Inr srcB)"
    and "\<forall>r \<in> set srcA. loadable r" and "\<forall>r \<in> set srcB. loadable r"
  shows "\<exists>dups d s da mm co po.
    find_duplicate_ips_in_csv fs f1 = Inr dups \<and>
    load_csv_as_dict fs f1 = Inr (d, s) \<and>
    compare_csvs fs f1 f2 = Inr (da, mm, co, po) \<and>
    [] \<notin> fst ` set dups \<and> [] \<notin> dom d \<and> [] \<notin> set s \<and>
    [] \<notin> set co \<and> [] \<notin> set po \<and>
    [] \<notin> ip_address ` set da \<and> [] \<notin> mm_ip_address ` set mm \<and>
    (\<forall>i < length srcA. has_key [] (srcA ! i) \<longrightarrow>
       (\<forall>(k, ps) \<in> set dups. i + 2 \<notin> set ps) \<and>
       (\<forall>e \<in> ran d. i + 2 \<notin> set (rows e)) \<and>
       (\<forall>x \<in> set da. i + 2 \<notin> set (cbs_master_rows x)) \<and>
       (\<forall>m \<in> set mm. i + 2 \<notin> set (mm_cbs_master_rows m)))"
proof -
  from assms(3) have kA: "\<forall>r \<in> set srcA. keyed r"
    by (simp add: loadable_keyed)
  from assms(1) kA obtain res where
    "dup_loop 2 (map Inr srcA) [] = Inr res" and
    f: "find_duplicate_ips_in_csv fs f1 = Inr (filter (\<lambda>(ip, rows). length rows > 1) res)" and
    d: "distinct (map fst res)" and
    m: "\<And>k. map_of res k = (if k \<in> keys srcA then Some (positions k srcA) else None)"
    by (rule find_duplicate_result) blast
  let ?dups = "filter (\<lambda>(ip, rows). length rows > 1) res"
  have mem: "(k, ps) \<in> set res \<longleftrightarrow> k \<in> keys srcA \<and> ps = positions k srcA" for k ps
    by (rule entries_of_map_of [OF d m])
  from load_csv_as_dict_total [of fs f1 srcA, OF assms(1,3)] obtain a s where
    l: "load_csv_as_dict fs f1 = Inr (a, s)"
    by blast
  note ks = load_csv_as_dict_keys [of fs f1 srcA, OF assms(1) l]
  from assms obtain da mm co po where
    c: "compare_csvs fs f1 f2 = Inr (da, mm, co, po)" and
    o: "set co = keys srcA - keys srcB" "set po = keys srcB - keys srcA" and
    x: "\<And>x. x \<in> set da \<Longrightarrow> ip_address x \<in> keys srcA \<inter> keys srcB \<and>
       cbs_master_rows x = positions (ip_address x) srcA \<and>
       poco_sheet_rows x = positions (ip_address x) srcB" and
    y: "\<And>m. m \<in> set mm \<Longrightarrow> mm_ip_address m \<in> keys srcA \<inter> keys srcB \<and>
       mm_cbs_master_rows m = positions (mm_ip_address m) srcA \<and>
       mm_poco_sheet_rows m = positions (mm_ip_address m) srcB"
    by (rule reconcile_records) blast
  have 1: "[] \<notin> fst ` set ?dups"
    using mem by fastforce
  have 2: "[] \<notin> dom a" "[] \<notin> set s" "[] \<notin> set co" "[] \<notin> set po"
    by (simp_all add: ks o)
  have 3: "[] \<notin> ip_address ` set da"
  proof
    assume "[] \<in> ip_address ` set da"
    then obtain x where "x \<in> set da" "ip_address x = []"
      by auto
    with x [of x] show False
      by simp
  qed
  have 4: "[] \<notin> mm_ip_address ` set mm"
  proof
    assume "[] \<in> mm_ip_address ` set mm"
    then obtain m where "m \<in> set mm" "mm_ip_address m = []"
      by auto
    with y [of m] show False
      by simp
  qed
  have 5: "(\<forall>(k, ps) \<in> set ?dups. i + 2 \<notin> set ps) \<and>
       (\<forall>e \<in> ran a. i + 2 \<notin> set (rows e)) \<and>
       (\<forall>x \<in> set da. i + 2 \<notin> set (cbs_master_rows x)) \<and>
       (\<forall>m \<in> set mm. i + 2 \<notin> set (mm_cbs_master_rows m))"
    if i: "i < length srcA" "has_key [] (srcA ! i)" for i
  proof (intro conjI ballI)
    fix p assume "p \<in> set ?dups"
    then have "p \<in> set res"
      by simp
    then have "fst p \<in> keys srcA" "snd p = positions (fst p) srcA"
      using mem [of "fst p" "snd p"] by simp_all
    with blank_row_position [OF i] show "case p of (k, ps) \<Rightarrow> i + 2 \<notin> set ps"
      by (simp add: case_prod_unfold)
  next
    fix e assume "e \<in> ran a"
    then obtain k where k: "a k = Some e"
      by (auto simp: ran_def)
    with ks(1) have kk: "k \<in> keys srcA"
      by auto
    from load_csv_as_dict_entry [of fs f1 srcA a s k, OF assms(1) l kk] k
    have "rows e = positions k srcA"
      by auto
    with blank_row_position [OF i kk] show "i + 2 \<notin> set (rows e)"
      by simp
  next
    fix x' assume "x' \<in> set da"
    from x [OF this] blank_row_position [OF i, of "ip_address x'"]
    show "i + 2 \<notin> set (cbs_master_rows x')"
      by simp
  next
    fix m' assume "m' \<in> set mm"
    from y [OF this] blank_row_position [OF i, of "mm_ip_address m'"]
    show "i + 2 \<notin> set (mm_cbs_master_rows m')"
      by simp
  qed
  from f l c 1 2 3 4 5 show ?thesis
    by blast
qed


theorem blank_key_rows_skipped_witness:
  "sample_fs ''a.csv'' = Some (map Inr source_A) \<and>
   sample_fs ''b.csv'' = Some (map Inr source_B) \<and>
   list_all loadable source_A \<and> list_all loadable source_B \<and>
   2 < length source_A \<and> has_key [] (source_A ! 2) \<and>
   (\<exists>dups d s da mm co po.
      find_duplicate_ips_in_csv sample_fs ''a.csv'' = Inr dups \<and>
      load_csv_as_dict sample_fs ''a.csv'' = Inr (d, s) \<and>
      compare_csvs sample_fs ''a.csv'' ''b.csv'' = Inr (da, mm, co, po) \<and>
      [] \<notin> fst ` set dups \<and> [] \<notin> dom d \<and> [] \<notin> set s \<and>
      [] \<notin> set co \<and> [] \<notin> set po \<and>
      [] \<notin> ip_address ` set da \<and> [] \<notin> mm_ip_address ` set mm \<and>
      (\<forall>(k, ps) \<in> set dups. 4 \<notin> set ps) \<and>
      (\<forall>e \<in> ran d. 4 \<notin> set (rows e)) \<and>
      (\<forall>x \<in> set da. 4 \<notin> set (cbs_master_rows x)) \<and>
      (\<forall>m \<in> set mm. 4 \<notin> set (mm_cbs_master_rows m)))"
proof -
  have i: "2 < length source_A" "has_key [] (source_A ! 2)"
    by (simp_all add: source_A_def has_key_record_row strip_sample)
  have n: "(2::nat) + 2 = 4"
    by simp
  from blank_key_rows_skipped [of sample_fs "''a.csv''" source_A "''b.csv''" source_B,
      OF sample_fs_files sample_loadable]
  obtain dups d s da mm co po where
    r: "find_duplicate_ips_in_csv sample_fs ''a.csv'' = Inr dups"
      "load_csv_as_dict sample_fs ''a.csv'' = Inr (d, s)"
      "compare_csvs sample_fs ''a.csv'' ''b.csv'' = Inr (da, mm, co, po)"
      "[] \<notin> fst ` set dups" "[] \<notin> dom d" "[] \<notin> set s"
      "[] \<notin> set co" "[] \<notin> set po"
      "[] \<notin> ip_address ` set da" "[] \<notin> mm_ip_address ` set mm" and
    q: "\<forall>i < length source_A. has_key [] (source_A ! i) \<longrightarrow>
       (\<forall>(k, ps) \<in> set dups. i + 2 \<notin> set ps) \<and>
       (\<forall>e \<in> ran d. i + 2 \<notin> set (rows e)) \<and>
       (\<forall>x \<in> set da. i + 2 \<notin> set (cbs_master_rows x)) \<and>
       (\<forall>m \<in> set mm. i + 2 \<notin> set (mm_cbs_master_rows m))"
    by blast
  from q i have "(\<forall>(k, ps) \<in> set dups. 2 + 2 \<notin> set ps) \<and>
       (\<forall>e \<in> ran d. 2 + 2 \<notin> set (rows e)) \<and>
       (\<forall>x \<in> set da. 2 + 2 \<notin> set (cbs_master_rows x)) \<and>
       (\<forall>m \<in> set mm. 2 + 2 \<notin> set (mm_cbs_master_rows m))"
    by blast
  then have "(\<forall>(k, ps) \<in> set dups. 4 \<notin> set ps) \<and>
       (\<forall>e \<in> ran d. 4 \<notin> set (rows e)) \<and>
       (\<forall>x \<in> set da. 4 \<notin> set (cbs_master_rows x)) \<and>
       (\<forall>m \<in> set mm. 4 \<notin> set (mm_cbs_master_rows m))"
    unfolding n .
  with r have "\<exists>dups d s da mm co po.
      find_duplicate_ips_in_csv sample_fs ''a.csv'' = Inr dups \<and>
      load_csv_as_dict sample_fs ''a.csv'' = Inr (d, s) \<and>
      compare_csvs sample_fs ''a.csv'' ''b.csv'' = Inr (da, mm, co, po) \<and>
      [] \<notin> fst ` set dups \<and> [] \<notin> dom d \<and> [] \<notin> set s \<and>
      [] \<notin> set co \<and> [] \<notin> set po \<and>
      [] \<notin> ip_address ` set da \<and> [] \<notin> mm_ip_address ` set mm \<and>
      (\<forall>(k, ps) \<in> set dups. 4 \<notin> set ps) \<and>
      (\<forall>e \<in> ran d. 4 \<notin> set (rows e)) \<and>
      (\<forall>x \<in> set da. 4 \<notin> set (cbs_master_rows x)) \<and>
      (\<forall>m \<in> set mm. 4 \<notin> set (mm_cbs_master_rows m))"
    by (intro exI [of _ dups] exI [of _ d] exI [of _ s] exI [of _ da]
        exI [of _ mm] exI [of _ co] exI [of _ po]) (elim conjE, intro conjI)
  with sample_fs_files sample_loadable_all i show ?thesis
    by (intro conjI)
qed

lemma has_key_raw:
  "has_key k r \<longleftrightarrow> (\<exists>raw. r ''IP Address'' = Some (Some raw) \<and> strip raw = k)"
  by (auto simp: has_key_def field_def split: option.splits)

lemma reconciler_keys:
  assumes "fs f1 = Some (map Inr srcA)" and "fs f2 = Some (map Inr srcB)"
    and "\<forall>r \<in> set srcA. loadable r" and "\<forall>r \<in> set srcB. loadable r"
    and "compare_csvs fs f1 f2 = Inr (da, mm, co, po)"
  shows "ip_address ` set da \<union> mm_ip_address ` set mm = keys srcA \<inter> keys srcB"
proof -
  from assms(1-4) obtain a s1 b s2 common where
    c: "set common = keys srcA \<inter> keys srcB" and
    r: "compare_csvs fs f1 f2 =
       Inr (map (\<lambda>k. match_record k (the (a k)) (the (b k)))
              (filter (\<lambda>k. agree (the (a k)) (the (b k))) common),
            map (\<lambda>k. mismatch_record k (the (a k)) (the (b k)))
              (filter (\<lambda>k. \<not> agree (the (a k)) (the (b k))) common),
            set_difference s1 s2, set_difference s2 s1)"
    by (rule reconcile) blast
  from r assms(5) have
    "da = map (\<lambda>k. match_record k (the (a k)) (the (b k)))
              (filter (\<lambda>k. agree (the (a k)) (the (b k))) common)"
    "mm = map (\<lambda>k. mismatch_record k (the (a k)) (the (b k)))
              (filter (\<lambda>k. \<not> agree (the (a k)) (the (b k))) common)"
    by simp_all
  then show ?thesis
    using emitted_keys [of "\<lambda>k. the (a k)" "\<lambda>k. the (b k)"
      "\<lambda>k. agree (the (a k)) (the (b k))" common]
    by (simp only: c)
qed

text \<open>
  Claim C9. Keys are compared as they are after trimming, with their case: the key set
  of a loaded source is the set of its non-blank trimmed key cells, and for two keys
  \<open>k1\<close> of A and \<open>k2\<close> of B that differ, also when they differ in case only, \<open>k1\<close>
  is only in A unless B has \<open>k1\<close> itself, \<open>k2\<close> is only in B unless A has \<open>k2\<close> itself,
  \<open>k1\<close> has an exact-match or conflict record only if B has \<open>k1\<close> itself, and the
  positions that the duplicate detector reports for \<open>k1\<close> are those of the rows whose
  key is \<open>k1\<close>, none of a row whose key is \<open>k2\<close>.
\<close>

theorem keys_are_case_sensitive:
  assumes "fs f1 = Some (map Inr srcA)" and "fs f2 = Some (map Inr srcB)"
    and "\<forall>r \<in> set srcA. loadable r" and "\<forall>r \<in> set srcB. loadable r"
    and "k1 \<in> keys srcA" and "k2 \<in> keys srcB"
    and "k1 \<noteq> k2"
  shows "\<exists>d s dups da mm co po.
    load_csv_as_dict fs f1 = Inr (d, s) \<and>
    find_duplicate_ips_in_csv fs f1 = Inr dups \<and>
    compare_csvs fs f1 f2 = Inr (da, mm, co, po) \<and>
    (\<forall>k. k \<in> set s \<longleftrightarrow>
       k \<noteq> [] \<and> (\<exists>r \<in> set srcA. \<exists>raw. r ''IP Address'' = Some (Some raw) \<and> strip raw = k)) \<and>
    (\<forall>ps i. (k1, ps) \<in> set dups \<and> i < length srcA \<longrightarrow>
       (i + 2 \<in> set ps \<longleftrightarrow> has_key k1 (srcA ! i)) \<and>
       (has_key k2 (srcA ! i) \<longrightarrow> i + 2 \<notin> set ps)) \<and>
    (k1 \<in> set co \<longleftrightarrow> k1 \<notin> keys srcB) \<and>
    (k2 \<in> set po \<longleftrightarrow> k2 \<notin> keys srcA) \<and>
    (k1 \<in> ip_address ` set da \<union> mm_ip_address ` set mm \<longleftrightarrow> k1 \<in> keys srcB)"
proof -
  from assms(3) have kA: "\<forall>r \<in> set srcA. keyed r"
    by (simp add: loadable_keyed)
  from assms(1) kA obtain res where
    "dup_loop 2 (map Inr srcA) [] = Inr res" and
    f: "find_duplicate_ips_in_csv fs f1 = Inr (filter (\<lambda>(ip, rows). length rows > 1) res)" and
    d: "distinct (map fst res)" and
    m: "\<And>k. map_of res k = (if k \<in> keys srcA then Some (positions k srcA) else None)"
    by (rule find_duplicate_result) blast
  let ?dups = "filter (\<lambda>(ip, rows). length rows > 1) res"
  have mem: "(k, ps) \<in> set res \<longleftrightarrow> k \<in> keys srcA \<and> ps = positions k srcA" for k ps
    by (rule entries_of_map_of [OF d m])
  from load_csv_as_dict_total [of fs f1 srcA, OF assms(1,3)] obtain a s where
    l: "load_csv_as_dict fs f1 = Inr (a, s)"
    by blast
  note ks = load_csv_as_dict_keys [of fs f1 srcA, OF assms(1) l]
  from assms(1-4) obtain da mm co po where
    c: "compare_csvs fs f1 f2 = Inr (da, mm, co, po)" and
    o: "set co = keys srcA - keys srcB" "set po = keys srcB - keys srcA"
    by (rule reconcile_records) blast
  from reconciler_keys [OF assms(1-4) c]
  have e: "ip_address ` set da \<union> mm_ip_address ` set mm = keys srcA \<inter> keys srcB"
    by simp
  have 1: "k \<in> set s \<longleftrightarrow>
       k \<noteq> [] \<and> (\<exists>r \<in> set srcA. \<exists>raw. r ''IP Address'' = Some (Some raw) \<and> strip raw = k)"
    for k
    by (simp add: ks keys_iff has_key_raw)
  have 2: "(i + 2 \<in> set ps \<longleftrightarrow> has_key k1 (srcA ! i)) \<and>
       (has_key k2 (srcA ! i) \<longrightarrow> i + 2 \<notin> set ps)"
    if "(k1, ps) \<in> set ?dups \<and> i < length srcA" for ps i
  proof -
    from that have ps: "ps = positions k1 srcA" and i: "i < length srcA"
      by (simp_all add: mem)
    have p: "i + 2 \<in> set ps \<longleftrightarrow> has_key k1 (srcA ! i)"
      unfolding ps by (rule position_in_positions [OF i])
    moreover have "i + 2 \<notin> set ps" if "has_key k2 (srcA ! i)"
      using has_key_unique [OF that] p assms(7) by blast
    ultimately show ?thesis
      by blast
  qed
  have 3: "k1 \<in> set co \<longleftrightarrow> k1 \<notin> keys srcB" "k2 \<in> set po \<longleftrightarrow> k2 \<notin> keys srcA"
    "k1 \<in> ip_address ` set da \<union> mm_ip_address ` set mm \<longleftrightarrow> k1 \<in> keys srcB"
    unfolding o e using assms(5,6) by simp_all
  from l f c 1 2 3 show ?thesis
    by blast
qed


theorem keys_are_case_sensitive_witness:
  "sample_fs ''a.csv'' = Some (map Inr source_A) \<and>
   sample_fs ''b.csv'' = Some (map Inr source_B) \<and>
   list_all loadable source_A \<and> list_all loadable source_B \<and>
   ''pr-7'' \<in> keys source_A \<and> ''PR-7'' \<in> keys source_B \<and> ''pr-7'' \<noteq> ''PR-7'' \<and>
   upper ''pr-7'' = upper ''PR-7'' \<and>
   (\<exists>da mm co po. compare_csvs sample_fs ''a.csv'' ''b.csv'' = Inr (da, mm, co, po) \<and>
      ''pr-7'' \<in> set co \<and> ''PR-7'' \<in> set po \<and>
      ''pr-7'' \<notin> ip_address ` set da \<union> mm_ip_address ` set mm)"
proof -
  define k1 k2 fa fb where "k1 = ''pr-7''" and "k2 = ''PR-7''"
    and "fa = ''a.csv''" and "fb = ''b.csv''"
  have k: "k1 \<in> keys source_A" "k2 \<in> keys source_B" "k1 \<noteq> k2"
    by (simp_all add: k1_def k2_def keys_sample)
  have n: "k1 \<notin> keys source_B" "k2 \<notin> keys source_A"
    by (simp_all add: k1_def k2_def keys_sample)
  have u: "upper k1 = upper k2"
    by (simp add: k1_def k2_def upper_sample)
  have f: "sample_fs fa = Some (map Inr source_A)" "sample_fs fb = Some (map Inr source_B)"
    by (simp_all add: fa_def fb_def sample_fs_files)
  from keys_are_case_sensitive [of sample_fs fa source_A fb source_B k1 k2,
      OF f sample_loadable k]
  obtain da mm co po where
    c: "compare_csvs sample_fs fa fb = Inr (da, mm, co, po)" and
    r: "k1 \<in> set co \<longleftrightarrow> k1 \<notin> keys source_B"
      "k2 \<in> set po \<longleftrightarrow> k2 \<notin> keys source_A"
      "k1 \<in> ip_address ` set da \<union> mm_ip_address ` set mm \<longleftrightarrow> k1 \<in> keys source_B"
    by (elim exE conjE) (rule that)
  from r n have "k1 \<in> set co" "k2 \<in> set po"
    "k1 \<notin> ip_address ` set da \<union> mm_ip_address ` set mm"
    by blast+
  with c have "\<exists>da mm co po. compare_csvs sample_fs fa fb = Inr (da, mm, co, po) \<and>
      k1 \<in> set co \<and> k2 \<in> set po \<and>
      k1 \<notin> ip_address ` set da \<union> mm_ip_address ` set mm"
    by (intro exI [of _ da] exI [of _ mm] exI [of _ co] exI [of _ po] conjI)
  with f sample_loadable_all k u show ?thesis
    unfolding k1_def k2_def fa_def fb_def by (intro conjI)
qed

section \<open>The main program\<close>

lemma load_loop_rows_only:
  "load_loop n f st = Inr st' \<Longrightarrow> \<exists>src. f = map Inr src"
proof (induction f arbitrary: n st)
  case Nil
  then show ?case by simp
next
  case (Cons x f)
  show ?case
  proof (cases x)
    case (Inl e)
    with Cons.prems show ?thesis by simp
  next
    case (Inr r)
    with Cons.prems obtain st1 where "load_loop (Suc n) f st1 = Inr st'"
      by (auto split: sum.splits)
    from Cons.IH [OF this] obtain src where "f = map Inr src" ..
    then have "x # f = map Inr (r # src)"
      by (simp add: Inr)
    then show ?thesis ..
  qed
qed

lemma load_csv_as_dict_dom:
  assumes "load_csv_as_dict fs f = Inr (a, s)"
  shows "set s = dom a"
proof -
  from assms obtain rd where rd: "fs f = Some rd" "load_loop 2 rd (Map.empty, []) = Inr (a, s)"
    by (auto simp: load_csv_as_dict_def split: option.splits)
  from load_loop_rows_only [OF rd(2)] obtain src where "rd = map Inr src" ..
  with rd(1) have "fs f = Some (map Inr src)"
    by simp
  from load_csv_as_dict_keys(1,2) [of fs f src, OF this assms] show ?thesis
    by simp
qed


lemma compare_csvs_total:
  assumes "load_csv_as_dict fs f1 = Inr st1" and "load_csv_as_dict fs f2 = Inr st2"
  shows "\<exists>r. compare_csvs fs f1 f2 = Inr r"
proof -
  obtain a s1 b s2 where st: "st1 = (a, s1)" "st2 = (b, s2)"
    by (cases st1, cases st2)
  from assms have l: "load_csv_as_dict fs f1 = Inr (a, s1)" "load_csv_as_dict fs f2 = Inr (b, s2)"
    by (simp_all add: st)
  from compare_csvs_result [OF l load_csv_as_dict_dom [OF l(1)] load_csv_as_dict_dom [OF l(2)]]
  show ?thesis ..
qed

lemma prints_only_print: "prints_only (print line)"
  by (simp add: prints_only_def print_def)

lemma prints_only_bind:
  assumes "prints_only m" and "\<And>x. prints_only (f x)"
  shows "prints_only (bind m f)"
  unfolding prints_only_def
proof
  fix out
  from assms(1) obtain l1 where 1: "m out = (Inr (), out @ l1)"
    unfolding prints_only_def by blast
  from assms(2) obtain l2 where 2: "f () (out @ l1) = (Inr (), (out @ l1) @ l2)"
    unfolding prints_only_def by blast
  have "bind m f out = (Inr (), out @ (l1 @ l2))"
    by (simp add: bind_def 1 2)
  then show "\<exists>lines. bind m f out = (Inr (), out @ lines)" ..
qed

lemma prints_only_for_each:
  assumes "\<And>x. prints_only (body x)"
  shows "prints_only (for_each xs body)"
proof (induction xs)
  case Nil
  show ?case
    by (simp add: prints_only_def call_def)
next
  case (Cons x xs)
  show ?case
    unfolding for_each.simps by (rule prints_only_bind) (rule assms, rule Cons.IH)
qed

lemma prints_only_sections:
  "prints_only (print_duplicates none_found d)"
  "prints_only (print_only none_found s)"
  "prints_only (print_duplicates_across da)"
  "prints_only (print_mismatches mm)"
  unfolding print_duplicates_def print_only_def print_duplicates_across_def
    print_mismatches_def
  by (auto intro!: prints_only_for_each prints_only_print simp: case_prod_unfold)

lemma report_prints:
  "\<exists>lines. report d1 d2 da mm co po out =
     (Inr (), out @ ''=== DUPLICATE IPs *WITHIN* CBS MASTER ==='' # lines)"
proof -
  let ?rest = "\<lambda>_ :: unit.
     bind (print_duplicates ''No duplicate IPs found within CBS Master.'' d1) (\<lambda>_.
     bind (print (CHR 0x0A # ''=== DUPLICATE IPs *WITHIN* POCO SHEET ==='')) (\<lambda>_.
     bind (print_duplicates ''No duplicate IPs found within Poco sheet.'' d2) (\<lambda>_.
     bind (print (CHR 0x0A # ''=== IPs IN CBS MASTER BUT *NOT* IN POCO SHEET ==='')) (\<lambda>_.
     bind (print_only ''No IPs are exclusive to CBS Master.'' co) (\<lambda>_.
     bind (print (CHR 0x0A # ''=== IPs IN POCO SHEET BUT *NOT* IN CBS MASTER ==='')) (\<lambda>_.
     bind (print_only ''No IPs are exclusive to Poco sheet.'' po) (\<lambda>_.
     bind (print (CHR 0x0A #
             ''=== CROSS-FILE EXACT MATCHES (SAME IP, SAME ID, SAME SERIAL) ==='')) (\<lambda>_.
     bind (print_duplicates_across da) (\<lambda>_.
     bind (print (CHR 0x0A #
             ''=== CROSS-FILE POTENTIAL CONFLICTS (SAME IP, DIFFERENT ID OR SERIAL) ==='')) (\<lambda>_.
     print_mismatches mm))))))))))"
  have "prints_only (?rest ())"
    by (intro prints_only_bind prints_only_print prints_only_sections)
  then obtain lines where
    "?rest () (out @ [''=== DUPLICATE IPs *WITHIN* CBS MASTER ===''])
       = (Inr (), (out @ [''=== DUPLICATE IPs *WITHIN* CBS MASTER ===''])  @ lines)"
    unfolding prints_only_def by blast
  then have "report d1 d2 da mm co po out =
      (Inr (), out @ ''=== DUPLICATE IPs *WITHIN* CBS MASTER ==='' # lines)"
    unfolding report_def by (simp add: bind_def [of "print _"] print_def)
  then show ?thesis ..
qed



lemma main_report:
  assumes "first_error fs = None"
  shows "\<exists>lines. main fs = (Inr (), ''=== DUPLICATE IPs *WITHIN* CBS MASTER ==='' # lines)"
proof -
  from assms obtain d1 d2 st1 st2 where
    r: "find_duplicate_ips_in_csv fs file1 = Inr d1" "find_duplicate_ips_in_csv fs file2 = Inr d2"
      "load_csv_as_dict fs file1 = Inr st1" "load_csv_as_dict fs file2 = Inr st2"
    by (auto simp: first_error_def split: sum.splits)
  from compare_csvs_total [OF r(3,4)] obtain da mm co po where
    c: "compare_csvs fs file1 file2 = Inr (da, mm, co, po)"
    by (metis prod_cases4)
  from report_prints [of d1 d2 da mm co po "[]"] show ?thesis
    by (simp add: main_def bind_def call_def r c)
qed














end
